theory Spec2Isabelle
  imports Main "HOL-Library.Word"
begin

section \<open>Reference-counted handles of \<^verbatim>\<open>smart_pointers.h\<close>\<close>

text \<open>
  The header defines a control block (\<^verbatim>\<open>BaseControlBlock\<close>) with two counters of type
  \<^verbatim>\<open>size_t\<close> and two virtual operations, its two variants
  (\<^verbatim>\<open>ControlBlockRegular\<close>, \<^verbatim>\<open>ControlBlockMakeShared\<close>), the handles \<^verbatim>\<open>SharedPtr\<close> and
  \<^verbatim>\<open>WeakPtr\<close>, and the factories \<^verbatim>\<open>allocateShared\<close> and \<^verbatim>\<open>makeShared\<close>.

  The embedding keeps the control blocks in an explicit heap (a map from addresses to
  blocks), because handles alias them. A pointer is an \<open>addr option\<close>, \<open>None\<close> being
  \<^verbatim>\<open>nullptr\<close>. \<^verbatim>\<open>size_t\<close> is a 64-bit word, so \<open>+ 1\<close> and \<open>- 1\<close> wrap as \<^verbatim>\<open>++\<close> and
  \<^verbatim>\<open>--\<close> do. The deleter, the value's destructor and the allocator are opaque to the
  header; their invocations are recorded as events of a trace. The value's destructor may
  itself destroy handles that the value owns: \<open>destroy\<close> and \<open>SharedPtr_dtor\<close> are the code
  for a value that owns none, \<open>destroy_owning\<close> and \<open>SharedPtr_dtor_owning\<close> the code for a
  value that owns Weak handles. An access to a block
  whose storage was released, a null dereference and a cast to the wrong block variant
  are undefined behaviour in C++ and are errors of the model.
\<close>

subsection \<open>Data\<close>

type_synonym addr = nat
type_synonym size_t = "64 word"

datatype error =
  BadAlloc | CtorFailure | UseAfterFree | NullDeref | BadCast | NoSuchHandle

text \<open>
  The variant part of a block. \<^verbatim>\<open>ControlBlockRegular\<close> holds \<^verbatim>\<open>T* ptr\<close>;
  \<^verbatim>\<open>ControlBlockMakeShared\<close> holds the value itself (\<^verbatim>\<open>T ptr\<close>), which is \<open>None\<close> once
  its destructor has run in place.
\<close>

datatype 'v body =
  ControlBlockRegular "addr option"
| ControlBlockMakeShared "'v option"

record 'v BaseControlBlock =
  shared_count :: size_t
  weak_count :: size_t
  body :: "'v body"

text \<open>
  The observable effects: storage obtained from an allocator, the deleter called on a
  pointer by \<^verbatim>\<open>ControlBlockRegular::destroy\<close>, the embedded value destroyed in place by
  \<^verbatim>\<open>ControlBlockMakeShared::destroy\<close>, and storage given back by \<^verbatim>\<open>deallocate\<close>.
\<close>

datatype event =
  Allocate addr
| DeleterCall addr "addr option"
| DestroyInPlace addr
| Deallocate addr

record 'v memory =
  heap :: "addr \<rightharpoonup> 'v BaseControlBlock"
  brk :: addr
  objs :: "addr \<rightharpoonup> 'v"
  trace :: "event list"

text \<open>\<^verbatim>\<open>SharedPtr\<close> and \<^verbatim>\<open>WeakPtr\<close> both hold \<^verbatim>\<open>T* ptr\<close> and \<^verbatim>\<open>BaseControlBlock* cb\<close>.\<close>

record handle =
  ptr :: "addr option"
  cb :: "addr option"

text \<open>
  An allocator either has storage to give or throws. Storage is never handed out
  twice: \<open>brk\<close> is the next fresh address.
\<close>

datatype allocator = Allocator (can_allocate: bool)

datatype loc = Obj addr | Embedded addr

definition null_handle :: handle where
  "null_handle = \<lparr>ptr = None, cb = None\<rparr>"

definition init_memory :: "'v memory" where
  "init_memory = \<lparr>heap = Map.empty, brk = 0, objs = Map.empty, trace = []\<rparr>"

subsection \<open>Allocator and control blocks\<close>

definition allocate :: "allocator \<Rightarrow> 'v memory \<Rightarrow> error + (addr \<times> 'v memory)" where
  "allocate al m =
     (if can_allocate al
      then Inr (brk m, m\<lparr>brk := Suc (brk m), trace := trace m @ [Allocate (brk m)]\<rparr>)
      else Inl BadAlloc)"

text \<open>
  \<^verbatim>\<open>destroy()\<close>, by variant, for a value that owns no handle: the new block contents and
  the event.
\<close>

definition destroy :: "addr \<Rightarrow> 'v BaseControlBlock \<Rightarrow> 'v BaseControlBlock \<times> event" where
  "destroy a b =
     (case body b of
        ControlBlockRegular p \<Rightarrow> (b\<lparr>body := ControlBlockRegular None\<rparr>, DeleterCall a p)
      | ControlBlockMakeShared v \<Rightarrow> (b\<lparr>body := ControlBlockMakeShared None\<rparr>, DestroyInPlace a))"

text \<open>\<^verbatim>\<open>deallocate()\<close>: both variants give the block's storage back to the allocator.\<close>

definition deallocate :: "addr \<Rightarrow> 'v memory \<Rightarrow> 'v memory" where
  "deallocate a m = m\<lparr>heap := (heap m)(a := None), trace := trace m @ [Deallocate a]\<rparr>"

text \<open>\<^verbatim>\<open>++(cb->shared_count)\<close> and \<^verbatim>\<open>++cb->weak_count\<close> through a non-null \<^verbatim>\<open>cb\<close>.\<close>

definition incr_shared :: "addr \<Rightarrow> 'v memory \<Rightarrow> error + 'v memory" where
  "incr_shared a m =
     (case heap m a of
        None \<Rightarrow> Inl UseAfterFree
      | Some b \<Rightarrow> Inr (m\<lparr>heap := (heap m)(a \<mapsto> b\<lparr>shared_count := shared_count b + 1\<rparr>)\<rparr>))"

definition incr_weak :: "addr \<Rightarrow> 'v memory \<Rightarrow> error + 'v memory" where
  "incr_weak a m =
     (case heap m a of
        None \<Rightarrow> Inl UseAfterFree
      | Some b \<Rightarrow> Inr (m\<lparr>heap := (heap m)(a \<mapsto> b\<lparr>weak_count := weak_count b + 1\<rparr>)\<rparr>))"

subsection \<open>SharedPtr\<close>

text \<open>The private constructor from a \<^verbatim>\<open>ControlBlockMakeShared*\<close>: \<^verbatim>\<open>ptr(nullptr), cb(cb)\<close>.\<close>

definition SharedPtr_from_block :: "addr option \<Rightarrow> 'v memory \<Rightarrow> error + (handle \<times> 'v memory)" where
  "SharedPtr_from_block c m =
     (case c of
        None \<Rightarrow> Inr (\<lparr>ptr = None, cb = None\<rparr>, m)
      | Some a \<Rightarrow>
          (case incr_shared a m of
             Inl e \<Rightarrow> Inl e
           | Inr m' \<Rightarrow> Inr (\<lparr>ptr = None, cb = Some a\<rparr>, m')))"

text \<open>
  The copy constructor and the private constructor from a \<^verbatim>\<open>WeakPtr\<close> have the same
  body: \<^verbatim>\<open>ptr(other.ptr), cb(other.cb)\<close>, then the increment when \<^verbatim>\<open>cb\<close> is not null.
\<close>

definition SharedPtr_copy :: "handle \<Rightarrow> 'v memory \<Rightarrow> error + (handle \<times> 'v memory)" where
  "SharedPtr_copy other m =
     (case cb other of
        None \<Rightarrow> Inr (\<lparr>ptr = ptr other, cb = None\<rparr>, m)
      | Some a \<Rightarrow>
          (case incr_shared a m of
             Inl e \<Rightarrow> Inl e
           | Inr m' \<Rightarrow> Inr (\<lparr>ptr = ptr other, cb = Some a\<rparr>, m')))"

definition SharedPtr_from_weak :: "handle \<Rightarrow> 'v memory \<Rightarrow> error + (handle \<times> 'v memory)" where
  "SharedPtr_from_weak p m =
     (case cb p of
        None \<Rightarrow> Inr (\<lparr>ptr = ptr p, cb = None\<rparr>, m)
      | Some a \<Rightarrow>
          (case incr_shared a m of
             Inl e \<Rightarrow> Inl e
           | Inr m' \<Rightarrow> Inr (\<lparr>ptr = ptr p, cb = Some a\<rparr>, m')))"

text \<open>
  The constructor from a raw pointer. When \<^verbatim>\<open>allocate\<close> throws, nothing else has
  happened: the exception leaves the constructor and no object exists. The result
  pairs the outcome with the memory the caller sees afterwards.
\<close>

definition SharedPtr_from_raw ::
  "addr option \<Rightarrow> allocator \<Rightarrow> 'v memory \<Rightarrow> (error + handle) \<times> 'v memory" where
  "SharedPtr_from_raw p al m =
     (case allocate al m of
        Inl e \<Rightarrow> (Inl e, m)
      | Inr (pt, m1) \<Rightarrow>
          (let m2 = m1\<lparr>heap := (heap m1)(pt \<mapsto>
                      \<lparr>shared_count = 0, weak_count = 0, body = ControlBlockRegular p\<rparr>)\<rparr>
           in case incr_shared pt m2 of
                Inl e \<Rightarrow> (Inl e, m2)
              | Inr m3 \<Rightarrow> (Inr \<lparr>ptr = p, cb = Some pt\<rparr>, m3)))"

text \<open>The move constructor: the new handle and what is left in \<^verbatim>\<open>other\<close>.\<close>

definition SharedPtr_move :: "handle \<Rightarrow> handle \<times> handle" where
  "SharedPtr_move other = (\<lparr>ptr = ptr other, cb = cb other\<rparr>, \<lparr>ptr = None, cb = None\<rparr>)"

definition use_count :: "handle \<Rightarrow> 'v memory \<Rightarrow> error + size_t" where
  "use_count h m =
     (case cb h of
        None \<Rightarrow> Inr 0
      | Some a \<Rightarrow>
          (case heap m a of
             None \<Rightarrow> Inl UseAfterFree
           | Some b \<Rightarrow> Inr (shared_count b)))"

definition SharedPtr_get :: "handle \<Rightarrow> addr option" where
  "SharedPtr_get h = ptr h"

text \<open>
  \<^verbatim>\<open>operator->\<close> yields the stored pointer when it is not null, else the address of
  the value embedded in the block, which the code reaches by a \<^verbatim>\<open>static_cast\<close> to
  \<^verbatim>\<open>ControlBlockMakeShared<T>*\<close>. \<^verbatim>\<open>operator*\<close> is the value there. The cast names the
  block type of the default allocator; that the embedded value lies at the same place in
  the block of any other allocator is a matter of object layout, which the embedding
  does not represent.
\<close>

definition operator_arrow :: "handle \<Rightarrow> 'v memory \<Rightarrow> error + loc" where
  "operator_arrow h m =
     (case ptr h of
        Some p \<Rightarrow> Inr (Obj p)
      | None \<Rightarrow>
          (case cb h of
             None \<Rightarrow> Inl NullDeref
           | Some a \<Rightarrow>
               (case heap m a of
                  None \<Rightarrow> Inl UseAfterFree
                | Some b \<Rightarrow>
                    (case body b of
                       ControlBlockRegular q \<Rightarrow> Inl BadCast
                     | ControlBlockMakeShared v \<Rightarrow> Inr (Embedded a)))))"

definition load :: "loc \<Rightarrow> 'v memory \<Rightarrow> error + 'v" where
  "load l m =
     (case l of
        Obj p \<Rightarrow> (case objs m p of None \<Rightarrow> Inl UseAfterFree | Some v \<Rightarrow> Inr v)
      | Embedded a \<Rightarrow>
          (case heap m a of
             None \<Rightarrow> Inl UseAfterFree
           | Some b \<Rightarrow>
               (case body b of
                  ControlBlockRegular q \<Rightarrow> Inl BadCast
                | ControlBlockMakeShared None \<Rightarrow> Inl UseAfterFree
                | ControlBlockMakeShared (Some v) \<Rightarrow> Inr v)))"

definition operator_star :: "handle \<Rightarrow> 'v memory \<Rightarrow> error + 'v" where
  "operator_star h m =
     (case operator_arrow h m of
        Inl e \<Rightarrow> Inl e
      | Inr l \<Rightarrow> load l m)"

text \<open>
  The destructor \<^verbatim>\<open>~SharedPtr\<close> for a value that owns no handle: \<^verbatim>\<open>destroy()\<close> then runs no
  code that touches the heap, and the block is as \<^verbatim>\<open>destroy()\<close> left it when
  \<^verbatim>\<open>cb->weak_count\<close> is read.
\<close>

definition SharedPtr_dtor :: "handle \<Rightarrow> 'v memory \<Rightarrow> error + 'v memory" where
  "SharedPtr_dtor h m =
     (case cb h of
        None \<Rightarrow> Inr m
      | Some a \<Rightarrow>
          (case heap m a of
             None \<Rightarrow> Inl UseAfterFree
           | Some b \<Rightarrow>
               (let b1 = b\<lparr>shared_count := shared_count b - 1\<rparr> in
                if shared_count b1 = 0
                then (let (b2, ev) = destroy a b1;
                          m2 = m\<lparr>heap := (heap m)(a \<mapsto> b2), trace := trace m @ [ev]\<rparr>
                      in if weak_count b2 = 0 then Inr (deallocate a m2) else Inr m2)
                else Inr (m\<lparr>heap := (heap m)(a \<mapsto> b1)\<rparr>))))"

subsection \<open>WeakPtr\<close>

text \<open>
  The constructors from a \<^verbatim>\<open>SharedPtr\<close> and from a \<^verbatim>\<open>WeakPtr\<close> have the same body:
  copy both fields, then \<^verbatim>\<open>++cb->weak_count\<close> when \<^verbatim>\<open>cb\<close> is not null.
\<close>

definition WeakPtr_from_shared :: "handle \<Rightarrow> 'v memory \<Rightarrow> error + (handle \<times> 'v memory)" where
  "WeakPtr_from_shared sh m =
     (case cb sh of
        None \<Rightarrow> Inr (\<lparr>ptr = ptr sh, cb = None\<rparr>, m)
      | Some a \<Rightarrow>
          (case incr_weak a m of
             Inl e \<Rightarrow> Inl e
           | Inr m' \<Rightarrow> Inr (\<lparr>ptr = ptr sh, cb = Some a\<rparr>, m')))"

definition WeakPtr_copy :: "handle \<Rightarrow> 'v memory \<Rightarrow> error + (handle \<times> 'v memory)" where
  "WeakPtr_copy other m =
     (case cb other of
        None \<Rightarrow> Inr (\<lparr>ptr = ptr other, cb = None\<rparr>, m)
      | Some a \<Rightarrow>
          (case incr_weak a m of
             Inl e \<Rightarrow> Inl e
           | Inr m' \<Rightarrow> Inr (\<lparr>ptr = ptr other, cb = Some a\<rparr>, m')))"

definition WeakPtr_move :: "handle \<Rightarrow> handle \<times> handle" where
  "WeakPtr_move other = (\<lparr>ptr = ptr other, cb = cb other\<rparr>, \<lparr>ptr = None, cb = None\<rparr>)"

definition expired :: "handle \<Rightarrow> 'v memory \<Rightarrow> error + bool" where
  "expired w m =
     (case use_count w m of
        Inl e \<Rightarrow> Inl e
      | Inr n \<Rightarrow> Inr (n = 0))"

definition lock :: "handle \<Rightarrow> 'v memory \<Rightarrow> error + (handle \<times> 'v memory)" where
  "lock w m =
     (case expired w m of
        Inl e \<Rightarrow> Inl e
      | Inr ex \<Rightarrow> if ex then Inr (null_handle, m) else SharedPtr_from_weak w m)"

definition WeakPtr_dtor :: "handle \<Rightarrow> 'v memory \<Rightarrow> error + 'v memory" where
  "WeakPtr_dtor h m =
     (case cb h of
        None \<Rightarrow> Inr m
      | Some a \<Rightarrow>
          (case heap m a of
             None \<Rightarrow> Inl UseAfterFree
           | Some b \<Rightarrow>
               (let b1 = b\<lparr>weak_count := weak_count b - 1\<rparr>;
                    m1 = m\<lparr>heap := (heap m)(a \<mapsto> b1)\<rparr>
                in if weak_count b1 = 0 \<and> shared_count b1 = 0
                   then Inr (deallocate a m1)
                   else Inr m1)))"

subsection \<open>Factories\<close>

text \<open>
  \<^verbatim>\<open>allocateShared\<close>: allocate, then construct the block in place from the forwarded
  arguments, then build the handle. \<open>ctor args\<close> is the outcome of the value's
  constructor; when it throws, the exception leaves \<^verbatim>\<open>allocateShared\<close> at once: the
  function has no handler and nothing between \<^verbatim>\<open>allocate\<close> and \<^verbatim>\<open>return\<close> gives
  the storage back.
\<close>

definition allocateShared ::
  "allocator \<Rightarrow> ('args \<Rightarrow> error + 'v) \<Rightarrow> 'args \<Rightarrow> 'v memory \<Rightarrow> (error + handle) \<times> 'v memory" where
  "allocateShared al ctor args m =
     (case allocate al m of
        Inl e \<Rightarrow> (Inl e, m)
      | Inr (pt, m1) \<Rightarrow>
          (case ctor args of
             Inl e \<Rightarrow> (Inl e, m1)
           | Inr v \<Rightarrow>
               (let m2 = m1\<lparr>heap := (heap m1)(pt \<mapsto>
                           \<lparr>shared_count = 0, weak_count = 0,
                            body = ControlBlockMakeShared (Some v)\<rparr>)\<rparr>
                in case SharedPtr_from_block (Some pt) m2 of
                     Inl e \<Rightarrow> (Inl e, m2)
                   | Inr (h, m3) \<Rightarrow> (Inr h, m3))))"

text \<open>
  \<^verbatim>\<open>makeShared\<close> passes \<^verbatim>\<open>std::allocator<U>()\<close>; \<open>std_alloc\<close> stands for it (whether
  the free store has room is not the header's business).
\<close>

definition makeShared ::
  "allocator \<Rightarrow> ('args \<Rightarrow> error + 'v) \<Rightarrow> 'args \<Rightarrow> 'v memory \<Rightarrow> (error + handle) \<times> 'v memory" where
  "makeShared std_alloc ctor args m = allocateShared std_alloc ctor args m"

subsection \<open>Handle objects and the operations of a program\<close>

text \<open>
  The handle objects of a program live in two stores, one of \<^verbatim>\<open>SharedPtr\<close> objects and
  one of \<^verbatim>\<open>WeakPtr\<close> objects. A reference to a handle (\<^verbatim>\<open>this\<close>, \<^verbatim>\<open>other\<close>) is an index
  into its store, so that \<^verbatim>\<open>this == &other\<close> is equality of indices and an operation
  on aliased references acts on one object. A slot is \<open>None\<close> once the object's
  lifetime has ended. The temporaries of the member functions (\<^verbatim>\<open>copy\<close>) are local
  values.
\<close>

record 'v state =
  mem :: "'v memory"
  strong :: "handle option list"
  weak :: "handle option list"

definition init_state :: "'v state" where
  "init_state = \<lparr>mem = init_memory, strong = [], weak = []\<rparr>"

definition slot :: "handle option list \<Rightarrow> nat \<Rightarrow> handle option" where
  "slot hs i = (if i < length hs then hs ! i else None)"

definition need :: "'a option \<Rightarrow> error + 'a" where
  "need x = (case x of None \<Rightarrow> Inl NoSuchHandle | Some v \<Rightarrow> Inr v)"

definition and_then :: "error + 'a \<Rightarrow> ('a \<Rightarrow> error + 'b) \<Rightarrow> error + 'b" where
  "and_then r f = (case r of Inl e \<Rightarrow> Inl e | Inr x \<Rightarrow> f x)"

text \<open>The errors that are C++ exceptions; the others are undefined behaviour.\<close>

definition thrown :: "error \<Rightarrow> bool" where
  "thrown e = (e = BadAlloc \<or> e = CtorFailure)"

text \<open>\<^verbatim>\<open>swap\<close>: \<^verbatim>\<open>std::swap(ptr, other.ptr); std::swap(cb, other.cb)\<close>, on two objects.\<close>

definition swap_handles :: "handle \<Rightarrow> handle \<Rightarrow> handle \<times> handle" where
  "swap_handles this other =
     (\<lparr>ptr = ptr other, cb = cb other\<rparr>, \<lparr>ptr = ptr this, cb = cb this\<rparr>)"

text \<open>\<^verbatim>\<open>SharedPtr::swap\<close> between two objects of the store; a swap with itself changes nothing.\<close>

definition SharedPtr_swap :: "nat \<Rightarrow> nat \<Rightarrow> 'v state \<Rightarrow> error + 'v state" where
  "SharedPtr_swap this other s =
     and_then (need (slot (strong s) this)) (\<lambda>t.
     and_then (need (slot (strong s) other)) (\<lambda>ot.
       if this = other then Inr s
       else (let (t', o') = swap_handles t ot
             in Inr (s\<lparr>strong := (strong s)[this := Some t', other := Some o']\<rparr>))))"

text \<open>
  \<^verbatim>\<open>operator=(const SharedPtr&)\<close>: returns at once when \<^verbatim>\<open>this == &other\<close>; otherwise
  copy-constructs \<^verbatim>\<open>copy\<close>, swaps it with \<^verbatim>\<open>*this\<close> and destroys it.
\<close>

definition SharedPtr_assign :: "nat \<Rightarrow> nat \<Rightarrow> 'v state \<Rightarrow> error + 'v state" where
  "SharedPtr_assign this other s =
     and_then (need (slot (strong s) this)) (\<lambda>t.
     and_then (need (slot (strong s) other)) (\<lambda>ot.
       if this = other then Inr s
       else
         and_then (SharedPtr_copy ot (mem s)) (\<lambda>(copy, m1).
           (let (t', copy') = swap_handles t copy in
            and_then (SharedPtr_dtor copy' m1) (\<lambda>m2.
              Inr (s\<lparr>mem := m2, strong := (strong s)[this := Some t']\<rparr>))))))"

text \<open>
  \<^verbatim>\<open>operator=(SharedPtr&&)\<close>: move-constructs \<^verbatim>\<open>copy\<close> from \<^verbatim>\<open>other\<close> (which becomes
  null), swaps \<^verbatim>\<open>copy\<close> with \<^verbatim>\<open>*this\<close> as it is then, and destroys \<^verbatim>\<open>copy\<close>. There is
  no check for self-assignment.
\<close>

definition SharedPtr_move_assign :: "nat \<Rightarrow> nat \<Rightarrow> 'v state \<Rightarrow> error + 'v state" where
  "SharedPtr_move_assign this other s =
     and_then (need (slot (strong s) other)) (\<lambda>ot.
       (let (copy, o') = SharedPtr_move ot;
            st1 = (strong s)[other := Some o']
        in and_then (need (slot st1 this)) (\<lambda>t.
             (let (t', copy') = swap_handles t copy in
              and_then (SharedPtr_dtor copy' (mem s)) (\<lambda>m2.
                Inr (s\<lparr>mem := m2, strong := st1[this := Some t']\<rparr>))))))"

text \<open>\<^verbatim>\<open>reset()\<close>: \<^verbatim>\<open>SharedPtr<T>().swap(*this)\<close>, then the temporary is destroyed.\<close>

definition SharedPtr_reset :: "nat \<Rightarrow> 'v state \<Rightarrow> error + 'v state" where
  "SharedPtr_reset this s =
     and_then (need (slot (strong s) this)) (\<lambda>t.
       (let (tmp', t') = swap_handles null_handle t in
        and_then (SharedPtr_dtor tmp' (mem s)) (\<lambda>m2.
          Inr (s\<lparr>mem := m2, strong := (strong s)[this := Some t']\<rparr>))))"

text \<open>
  \<^verbatim>\<open>reset(ptr, del, alloc)\<close>: \<^verbatim>\<open>SharedPtr<T>(ptr, del, alloc).swap(*this)\<close>. When the
  temporary's constructor throws, \<^verbatim>\<open>*this\<close> is untouched; the caller goes on with the
  memory the constructor left.
\<close>

definition SharedPtr_reset_ptr ::
  "nat \<Rightarrow> addr option \<Rightarrow> allocator \<Rightarrow> 'v state \<Rightarrow> error + 'v state" where
  "SharedPtr_reset_ptr this p al s =
     and_then (need (slot (strong s) this)) (\<lambda>t.
       (case SharedPtr_from_raw p al (mem s) of
          (Inl e, m1) \<Rightarrow> if thrown e then Inr (s\<lparr>mem := m1\<rparr>) else Inl e
        | (Inr tmp, m1) \<Rightarrow>
            (let (tmp', t') = swap_handles tmp t in
             and_then (SharedPtr_dtor tmp' m1) (\<lambda>m2.
               Inr (s\<lparr>mem := m2, strong := (strong s)[this := Some t']\<rparr>)))))"

text \<open>\<^verbatim>\<open>WeakPtr::swap\<close>, and the two assignments of \<^verbatim>\<open>WeakPtr\<close>; neither checks for self-assignment.\<close>

definition WeakPtr_swap :: "nat \<Rightarrow> nat \<Rightarrow> 'v state \<Rightarrow> error + 'v state" where
  "WeakPtr_swap this other s =
     and_then (need (slot (weak s) this)) (\<lambda>t.
     and_then (need (slot (weak s) other)) (\<lambda>ot.
       if this = other then Inr s
       else (let (t', o') = swap_handles t ot
             in Inr (s\<lparr>weak := (weak s)[this := Some t', other := Some o']\<rparr>))))"

definition WeakPtr_assign :: "nat \<Rightarrow> nat \<Rightarrow> 'v state \<Rightarrow> error + 'v state" where
  "WeakPtr_assign this other s =
     and_then (need (slot (weak s) this)) (\<lambda>t.
     and_then (need (slot (weak s) other)) (\<lambda>ot.
       and_then (WeakPtr_copy ot (mem s)) (\<lambda>(copy, m1).
         (let (t', copy') = swap_handles t copy in
          and_then (WeakPtr_dtor copy' m1) (\<lambda>m2.
            Inr (s\<lparr>mem := m2, weak := (weak s)[this := Some t']\<rparr>))))))"

definition WeakPtr_move_assign :: "nat \<Rightarrow> nat \<Rightarrow> 'v state \<Rightarrow> error + 'v state" where
  "WeakPtr_move_assign this other s =
     and_then (need (slot (weak s) other)) (\<lambda>ot.
       (let (copy, o') = WeakPtr_move ot;
            wk1 = (weak s)[other := Some o']
        in and_then (need (slot wk1 this)) (\<lambda>t.
             (let (t', copy') = swap_handles t copy in
              and_then (WeakPtr_dtor copy' (mem s)) (\<lambda>m2.
                Inr (s\<lparr>mem := m2, weak := wk1[this := Some t']\<rparr>))))))"

text \<open>
  The statements of a program over the two stores. A constructor puts its object in a
  new slot at the end of its store; \<open>SDestroy\<close> and \<open>WDestroy\<close> run the destructor and
  end the object's lifetime. An exception thrown by a constructor or a factory
  (\<open>BadAlloc\<close>, \<open>CtorFailure\<close>) is caught by the program, which goes on with the
  memory as the throwing call left it and with no new object. The errors of
  \<open>step\<close> are \<open>NoSuchHandle\<close>, for a statement that names no live object, and the
  undefined behaviours.
\<close>

datatype 'v op =
  SDefault
| SNew "addr option" allocator
| SMake allocator "error + 'v"
| SCopy nat
| SMove nat
| SAssign nat nat
| SMoveAssign nat nat
| SReset nat
| SResetPtr nat "addr option" allocator
| SSwap nat nat
| SDestroy nat
| WDefault
| WFromShared nat
| WCopy nat
| WMove nat
| WAssign nat nat
| WMoveAssign nat nat
| WSwap nat nat
| WLock nat
| WDestroy nat

fun step :: "'v state \<Rightarrow> 'v op \<Rightarrow> error + 'v state" where
  "step s SDefault = Inr (s\<lparr>strong := strong s @ [Some null_handle]\<rparr>)"
| "step s (SNew p al) =
     (case SharedPtr_from_raw p al (mem s) of
        (Inl e, m1) \<Rightarrow> if thrown e then Inr (s\<lparr>mem := m1\<rparr>) else Inl e
      | (Inr h, m1) \<Rightarrow> Inr (s\<lparr>mem := m1, strong := strong s @ [Some h]\<rparr>))"
| "step s (SMake al outcome) =
     (case allocateShared al (\<lambda>u. outcome) () (mem s) of
        (Inl e, m1) \<Rightarrow> if thrown e then Inr (s\<lparr>mem := m1\<rparr>) else Inl e
      | (Inr h, m1) \<Rightarrow> Inr (s\<lparr>mem := m1, strong := strong s @ [Some h]\<rparr>))"
| "step s (SCopy i) =
     and_then (need (slot (strong s) i)) (\<lambda>ot.
     and_then (SharedPtr_copy ot (mem s)) (\<lambda>(h, m1).
       Inr (s\<lparr>mem := m1, strong := strong s @ [Some h]\<rparr>)))"
| "step s (SMove i) =
     and_then (need (slot (strong s) i)) (\<lambda>ot.
       (let (h, o') = SharedPtr_move ot
        in Inr (s\<lparr>strong := (strong s)[i := Some o'] @ [Some h]\<rparr>)))"
| "step s (SAssign i j) = SharedPtr_assign i j s"
| "step s (SMoveAssign i j) = SharedPtr_move_assign i j s"
| "step s (SReset i) = SharedPtr_reset i s"
| "step s (SResetPtr i p al) = SharedPtr_reset_ptr i p al s"
| "step s (SSwap i j) = SharedPtr_swap i j s"
| "step s (SDestroy i) =
     and_then (need (slot (strong s) i)) (\<lambda>h.
     and_then (SharedPtr_dtor h (mem s)) (\<lambda>m1.
       Inr (s\<lparr>mem := m1, strong := (strong s)[i := None]\<rparr>)))"
| "step s WDefault = Inr (s\<lparr>weak := weak s @ [Some null_handle]\<rparr>)"
| "step s (WFromShared i) =
     and_then (need (slot (strong s) i)) (\<lambda>sh.
     and_then (WeakPtr_from_shared sh (mem s)) (\<lambda>(w, m1).
       Inr (s\<lparr>mem := m1, weak := weak s @ [Some w]\<rparr>)))"
| "step s (WCopy i) =
     and_then (need (slot (weak s) i)) (\<lambda>ot.
     and_then (WeakPtr_copy ot (mem s)) (\<lambda>(w, m1).
       Inr (s\<lparr>mem := m1, weak := weak s @ [Some w]\<rparr>)))"
| "step s (WMove i) =
     and_then (need (slot (weak s) i)) (\<lambda>ot.
       (let (w, o') = WeakPtr_move ot
        in Inr (s\<lparr>weak := (weak s)[i := Some o'] @ [Some w]\<rparr>)))"
| "step s (WAssign i j) = WeakPtr_assign i j s"
| "step s (WMoveAssign i j) = WeakPtr_move_assign i j s"
| "step s (WSwap i j) = WeakPtr_swap i j s"
| "step s (WLock i) =
     and_then (need (slot (weak s) i)) (\<lambda>w.
     and_then (lock w (mem s)) (\<lambda>(h, m1).
       Inr (s\<lparr>mem := m1, strong := strong s @ [Some h]\<rparr>)))"
| "step s (WDestroy i) =
     and_then (need (slot (weak s) i)) (\<lambda>h.
     and_then (WeakPtr_dtor h (mem s)) (\<lambda>m1.
       Inr (s\<lparr>mem := m1, weak := (weak s)[i := None]\<rparr>)))"

fun run :: "'v state \<Rightarrow> 'v op list \<Rightarrow> error + 'v state" where
  "run s [] = Inr s"
| "run s (x # xs) = and_then (step s x) (\<lambda>s'. run s' xs)"

subsection \<open>Values that own handles\<close>

text \<open>
  The value may have \<^verbatim>\<open>WeakPtr\<close> members (a back pointer, a pointer to itself). Its
  destructor, which \<^verbatim>\<open>destroy()\<close> runs through the deleter or in place, runs \<^verbatim>\<open>~WeakPtr\<close> on
  each of them.
\<close>

fun destroy_members :: "handle list \<Rightarrow> 'v memory \<Rightarrow> error + 'v memory" where
  "destroy_members [] m = Inr m"
| "destroy_members (w # ws) m = and_then (WeakPtr_dtor w m) (destroy_members ws)"

text \<open>
  \<^verbatim>\<open>cb->destroy()\<close> on block \<open>a\<close> whose value owns the Weak handles \<open>ws\<close>: the deleter or
  the in-place destructor is called, the value's destructor destroys the members, and
  \<^verbatim>\<open>ControlBlockRegular::destroy\<close> then writes \<^verbatim>\<open>ptr = nullptr\<close> into the block, which is a
  write to released storage if a member's destructor has deallocated the block. The result
  pairs the outcome with the memory at that point.
\<close>

definition destroy_owning ::
  "addr \<Rightarrow> handle list \<Rightarrow> 'v memory \<Rightarrow> (error + unit) \<times> 'v memory" where
  "destroy_owning a ws m =
     (case heap m a of
        None \<Rightarrow> (Inl UseAfterFree, m)
      | Some b \<Rightarrow>
          (let m1 = m\<lparr>trace := trace m @ [snd (destroy a b)]\<rparr> in
           case destroy_members ws m1 of
             Inl e \<Rightarrow> (Inl e, m1)
           | Inr m2 \<Rightarrow>
               (case heap m2 a of
                  None \<Rightarrow>
                    (case body b of
                       ControlBlockRegular p \<Rightarrow> (Inl UseAfterFree, m2)
                     | ControlBlockMakeShared v \<Rightarrow> (Inr (), m2))
                | Some b2 \<Rightarrow>
                    (Inr (), m2\<lparr>heap := (heap m2)(a \<mapsto> fst (destroy a b2))\<rparr>))))"

text \<open>
  \<^verbatim>\<open>~SharedPtr\<close> on a handle whose value owns the Weak handles \<open>ws\<close>, statement by
  statement: \<^verbatim>\<open>--(cb->shared_count)\<close>; when it is 0, \<^verbatim>\<open>cb->destroy()\<close>, and then
  \<^verbatim>\<open>cb->weak_count\<close> is read again from the block, wherever \<^verbatim>\<open>destroy()\<close> has left it.
\<close>

definition SharedPtr_dtor_owning ::
  "handle \<Rightarrow> handle list \<Rightarrow> 'v memory \<Rightarrow> (error + unit) \<times> 'v memory" where
  "SharedPtr_dtor_owning h ws m =
     (case cb h of
        None \<Rightarrow> (Inr (), m)
      | Some a \<Rightarrow>
          (case heap m a of
             None \<Rightarrow> (Inl UseAfterFree, m)
           | Some b \<Rightarrow>
               (let b1 = b\<lparr>shared_count := shared_count b - 1\<rparr>;
                    m1 = m\<lparr>heap := (heap m)(a \<mapsto> b1)\<rparr>
                in if shared_count b1 = 0
                   then (case destroy_owning a ws m1 of
                           (Inl e, m2) \<Rightarrow> (Inl e, m2)
                         | (Inr u, m2) \<Rightarrow>
                             (case heap m2 a of
                                None \<Rightarrow> (Inl UseAfterFree, m2)
                              | Some b2 \<Rightarrow>
                                  if weak_count b2 = 0 then (Inr (), deallocate a m2)
                                  else (Inr (), m2)))
                   else (Inr (), m1))))"

text \<open>
  Counting: how many live handle objects of a store refer to block \<open>a\<close>, and how often
  the trace shows \<^verbatim>\<open>destroy()\<close> and \<^verbatim>\<open>deallocate()\<close> of block \<open>a\<close>.
\<close>

definition cbo :: "handle option \<Rightarrow> addr option" where
  "cbo ho = (case ho of None \<Rightarrow> None | Some h \<Rightarrow> cb h)"

definition hit :: "addr option \<Rightarrow> addr \<Rightarrow> nat" where
  "hit c a = (if c = Some a then 1 else 0)"

definition refs :: "handle option list \<Rightarrow> addr \<Rightarrow> nat" where
  "refs hs a = sum_list (map (\<lambda>ho. hit (cbo ho) a) hs)"

definition strong_refs :: "'v state \<Rightarrow> addr \<Rightarrow> nat" where
  "strong_refs s a = refs (strong s) a"

definition weak_refs :: "'v state \<Rightarrow> addr \<Rightarrow> nat" where
  "weak_refs s a = refs (weak s) a"

fun is_destroy :: "addr \<Rightarrow> event \<Rightarrow> bool" where
  "is_destroy a (DeleterCall b p) = (a = b)"
| "is_destroy a (DestroyInPlace b) = (a = b)"
| "is_destroy a (Allocate b) = False"
| "is_destroy a (Deallocate b) = False"

definition destroys :: "event list \<Rightarrow> addr \<Rightarrow> nat" where
  "destroys tr a = length (filter (is_destroy a) tr)"

definition deallocs :: "event list \<Rightarrow> addr \<Rightarrow> nat" where
  "deallocs tr a = count_list tr (Deallocate a)"

subsection \<open>Accounting\<close>

text \<open>
  The invariant of a memory against the numbers \<open>f a\<close> and \<open>g a\<close> of live Strong and
  Weak handle objects (temporaries included) that refer to block \<open>a\<close>: a block in the
  heap has exactly these numbers in its two counters, is referred to by some handle, has
  not been deallocated, and has been destroyed exactly when no Strong handle is left; an
  address with no block has no handle referring to it, and its storage was destroyed and
  deallocated equally often, at most once, and never if the allocator has not handed it
  out yet.
\<close>

definition acct :: "'v memory \<Rightarrow> (addr \<Rightarrow> nat) \<Rightarrow> (addr \<Rightarrow> nat) \<Rightarrow> bool" where
  "acct m f g \<longleftrightarrow>
     (\<forall>a b. heap m a = Some b \<longrightarrow>
        unat (shared_count b) = f a \<and> unat (weak_count b) = g a \<and> 0 < f a + g a \<and>
        a < brk m \<and> deallocs (trace m) a = 0 \<and>
        destroys (trace m) a = (if f a = 0 then 1 else 0)) \<and>
     (\<forall>a. heap m a = None \<longrightarrow>
        f a = 0 \<and> g a = 0 \<and> destroys (trace m) a = deallocs (trace m) a \<and>
        deallocs (trace m) a \<le> 1 \<and> (brk m \<le> a \<longrightarrow> deallocs (trace m) a = 0))"

text \<open>
  A program state is well formed when its memory is accounted for by the handle objects
  of its two stores.
\<close>

definition wf :: "'v state \<Rightarrow> bool" where
  "wf s \<longleftrightarrow> acct (mem s) (refs (strong s)) (refs (weak s))"

text \<open>
  How a memory develops: the trace only grows, and a block that exists, or has existed and
  was deallocated once, stays so.
\<close>

definition extends :: "'v memory \<Rightarrow> 'v memory \<Rightarrow> bool" where
  "extends m m' \<longleftrightarrow>
     (\<exists>es. trace m' = trace m @ es) \<and>
     (\<forall>a. heap m a \<noteq> None \<or> deallocs (trace m) a = 1 \<longrightarrow>
          heap m' a \<noteq> None \<or> deallocs (trace m') a = 1)"

text \<open>
  The outcome of a statement from a well-formed state: either the statement names no live
  handle object, or it yields a well-formed state whose memory develops the old one.
\<close>

definition fine :: "'v state \<Rightarrow> error + 'v state \<Rightarrow> bool" where
  "fine s r \<longleftrightarrow>
     r = Inl NoSuchHandle \<or> (\<exists>s'. r = Inr s' \<and> wf s' \<and> extends (mem s) (mem s'))"

text \<open>
  The bound under which a counter cannot wrap: fewer than \<open>2^64 - 1\<close> handle objects
  were ever created in each store. A handle object occupies two pointers of an address
  space that \<^verbatim>\<open>size_t\<close> indexes, so no execution comes near it.
\<close>

definition roomy :: "'v state \<Rightarrow> bool" where
  "roomy s \<longleftrightarrow> Suc (length (strong s)) < 2 ^ 64 \<and> Suc (length (weak s)) < 2 ^ 64"

subsection \<open>Concrete states\<close>

text \<open>
  A block shared by two Strong handles and observed by one Weak handle, beside null
  handles; and a block owned by a single Strong handle beside a null one.
\<close>

definition example_block :: "int BaseControlBlock" where
  "example_block = \<lparr>shared_count = 2, weak_count = 1, body = ControlBlockRegular (Some 7)\<rparr>"

definition example_memory :: "int memory" where
  "example_memory =
     \<lparr>heap = [0 \<mapsto> example_block], brk = 1, objs = [7 \<mapsto> 5], trace = [Allocate 0]\<rparr>"

definition example_state :: "int state" where
  "example_state =
     \<lparr>mem = example_memory,
      strong = [Some \<lparr>ptr = Some 7, cb = Some 0\<rparr>, Some \<lparr>ptr = Some 7, cb = Some 0\<rparr>, Some null_handle],
      weak = [Some \<lparr>ptr = Some 7, cb = Some 0\<rparr>, Some null_handle]\<rparr>"

definition sole_owner_state :: "int state" where
  "sole_owner_state =
     \<lparr>mem = \<lparr>heap = [0 \<mapsto> \<lparr>shared_count = 1, weak_count = 0, body = ControlBlockRegular (Some 7)\<rparr>],
             brk = 1, objs = [7 \<mapsto> 5], trace = [Allocate 0]\<rparr>,
      strong = [Some \<lparr>ptr = Some 7, cb = Some 0\<rparr>, Some null_handle],
      weak = []\<rparr>"

text \<open>
  A value made by the factory that owns the only Weak handle on its own block: after
  \<^verbatim>\<open>auto s = makeShared<Node>(); s->self = s;\<close> block 0 has strong count 1, for \<^verbatim>\<open>s\<close>, and
  weak count 1, for the member \<^verbatim>\<open>self\<close>. Both handles have the fields of \<open>node_handle\<close>.
\<close>

definition node_handle :: handle where
  "node_handle = \<lparr>ptr = None, cb = Some 0\<rparr>"

definition self_observer_memory :: "int memory" where
  "self_observer_memory =
     \<lparr>heap = [0 \<mapsto> \<lparr>shared_count = 1, weak_count = 1, body = ControlBlockMakeShared (Some 5)\<rparr>],
      brk = 1, objs = Map.empty, trace = [Allocate 0]\<rparr>"

section \<open>Single operations\<close>

subsection \<open>Construction from a raw pointer when allocation fails\<close>

text \<open>
  C7. For every raw pointer \<open>p\<close>, constructing a Strong Handle from \<open>p\<close> with an
  allocator whose allocation always fails propagates the allocation failure, produces
  no handle, and leaves the memory as it was: no event is added to the trace, so the
  deleter is not called on \<open>p\<close>, and no block exists that was not there before.
\<close>

theorem failing_allocation_propagates_untouched:
  "SharedPtr_from_raw p (Allocator False) m = (Inl BadAlloc, m)"
  by (simp add: SharedPtr_from_raw_def allocate_def)

subsection \<open>The factories\<close>

text \<open>
  C5. For every value \<open>v\<close> that the constructor builds from the forwarded arguments and
  every allocator that has storage, the handle made by \<^verbatim>\<open>allocateShared\<close> (and by
  \<^verbatim>\<open>makeShared\<close>, which calls it) dereferences to \<open>v\<close>: \<^verbatim>\<open>operator->\<close> yields the address of
  the value embedded in the new block, \<^verbatim>\<open>operator*\<close> yields \<open>v\<close>, and \<^verbatim>\<open>use_count()\<close> is 1.
\<close>

theorem factory_handle_dereferences_to_value:
  assumes "can_allocate al" and "ctor args = Inr v"
  shows "\<exists>h m'. allocateShared al ctor args m = (Inr h, m') \<and>
           makeShared al ctor args m = (Inr h, m') \<and>
           operator_star h m' = Inr v \<and>
           operator_arrow h m' = Inr (Embedded (brk m)) \<and>
           load (Embedded (brk m)) m' = Inr v \<and>
           heap m' (brk m) =
             Some \<lparr>shared_count = 1, weak_count = 0, body = ControlBlockMakeShared (Some v)\<rparr> \<and>
           use_count h m' = Inr 1"
  using assms
  by (simp add: makeShared_def allocateShared_def allocate_def incr_shared_def
      SharedPtr_from_block_def use_count_def operator_star_def operator_arrow_def load_def Let_def)

theorem factory_handle_dereferences_to_value_witness:
  "\<exists>h m'. allocateShared (Allocator True) (\<lambda>x. Inr (x + 1)) (41::int) (init_memory :: int memory) = (Inr h, m') \<and>
     makeShared (Allocator True) (\<lambda>x. Inr (x + 1)) (41::int) init_memory = (Inr h, m') \<and>
     operator_star h m' = Inr 42 \<and>
     operator_arrow h m' = Inr (Embedded 0) \<and>
     load (Embedded 0) m' = Inr 42 \<and>
     heap m' 0 = Some \<lparr>shared_count = 1, weak_count = 0, body = ControlBlockMakeShared (Some 42)\<rparr> \<and>
     use_count h m' = Inr 1"
  using factory_handle_dereferences_to_value
    [of "Allocator True" "\<lambda>x. Inr (x + 1)" "41::int" 42 "init_memory :: int memory"]
  by (simp add: init_memory_def)

text \<open>
  C3, as the code has it. When the value's constructor fails inside \<^verbatim>\<open>allocateShared\<close>,
  the error propagates to the caller and the storage obtained for the block stays
  allocated: the memory the caller sees differs from the one before the call by the
  allocation alone. No block object and no handle exist for that storage, and nothing
  has given it back.
\<close>

theorem factory_ctor_failure_keeps_allocation:
  assumes "can_allocate al" and "ctor args = Inl e"
  shows "allocateShared al ctor args m =
           (Inl e, m\<lparr>brk := Suc (brk m), trace := trace m @ [Allocate (brk m)]\<rparr>)"
  using assms by (simp add: allocateShared_def allocate_def)

theorem factory_ctor_failure_keeps_allocation_witness:
  "allocateShared (Allocator True) (\<lambda>u. Inl CtorFailure) () (init_memory :: int memory) =
     (Inl CtorFailure, init_memory\<lparr>brk := Suc 0, trace := [Allocate 0]\<rparr>)"
  using factory_ctor_failure_keeps_allocation
    [of "Allocator True" "\<lambda>u. Inl CtorFailure" "()" CtorFailure "init_memory :: int memory"]
  by (simp add: init_memory_def)

text \<open>
  C3, as the claim states it, fails: on the empty memory, with an allocator that has
  storage and a constructor that throws, the error reaches the caller while the trace
  shows the allocation of block 0 and no deallocation of it.
\<close>

theorem factory_ctor_failure_leak_counterexample:
  "fst (allocateShared (Allocator True) (\<lambda>u. Inl CtorFailure) () (init_memory :: int memory))
     = Inl CtorFailure \<and>
   trace (snd (allocateShared (Allocator True) (\<lambda>u. Inl CtorFailure) () (init_memory :: int memory)))
     = [Allocate 0] \<and>
   deallocs (trace (snd (allocateShared (Allocator True) (\<lambda>u. Inl CtorFailure) ()
     (init_memory :: int memory)))) 0 = 0"
  by (simp add: allocateShared_def allocate_def init_memory_def deallocs_def)

subsection \<open>get\<close>

text \<open>
  C6. \<^verbatim>\<open>get()\<close> on a Strong Handle constructed from a raw pointer \<open>p\<close> returns \<open>p\<close>;
  \<^verbatim>\<open>get()\<close> on a handle made by the factory returns the null pointer, while
  \<^verbatim>\<open>operator*\<close> on that same handle yields the live value.
\<close>

theorem get_returns_stored_pointer:
  assumes "can_allocate al" and "ctor args = Inr v"
  shows "(\<exists>h m'. SharedPtr_from_raw p al m = (Inr h, m') \<and> SharedPtr_get h = p) \<and>
         (\<exists>h m'. allocateShared al ctor args m = (Inr h, m') \<and> SharedPtr_get h = None \<and>
                  operator_star h m' = Inr v)"
  using assms
  by (simp add: SharedPtr_from_raw_def allocateShared_def allocate_def incr_shared_def
      SharedPtr_from_block_def SharedPtr_get_def operator_star_def operator_arrow_def
      load_def Let_def)

theorem get_returns_stored_pointer_witness:
  "(\<exists>h m'. SharedPtr_from_raw (Some 7) (Allocator True) (init_memory :: int memory) = (Inr h, m') \<and>
      SharedPtr_get h = Some 7) \<and>
   (\<exists>h m'. allocateShared (Allocator True) (\<lambda>x. Inr x) (42::int) (init_memory :: int memory) = (Inr h, m') \<and>
      SharedPtr_get h = None \<and> operator_star h m' = Inr 42)"
  using get_returns_stored_pointer
    [of "Allocator True" "\<lambda>x. Inr x" "42::int" 42 "Some 7" "init_memory :: int memory"]
  by simp

subsection \<open>lock\<close>

text \<open>
  C4. For every Weak Handle \<open>w\<close>: when \<open>w\<close> is expired (it is null, or the strong count
  of its block is 0), \<^verbatim>\<open>lock()\<close> returns a null Strong Handle, whose \<^verbatim>\<open>use_count()\<close> is 0,
  and changes nothing; otherwise it returns a Strong Handle with the fields of \<open>w\<close>, so
  sharing its control block, whose \<^verbatim>\<open>use_count()\<close> is the strong count \<open>n\<close> before the call
  plus one. The sum is \<^verbatim>\<open>size_t\<close> addition.
\<close>

theorem lock_null_or_one_more:
  assumes "expired w m = Inr ex"
  shows "if ex
         then lock w m = Inr (null_handle, m) \<and> use_count null_handle m = Inr 0
         else (\<exists>n h m'. use_count w m = Inr n \<and> n \<noteq> 0 \<and> lock w m = Inr (h, m') \<and>
                 cb h = cb w \<and> ptr h = ptr w \<and> use_count h m' = Inr (n + 1))"
  using assms
  by (auto simp: expired_def lock_def use_count_def null_handle_def SharedPtr_from_weak_def
      incr_shared_def split: option.splits sum.splits if_splits)

theorem lock_null_or_one_more_witness:
  "expired \<lparr>ptr = Some 7, cb = Some 0\<rparr> example_memory = Inr False \<and>
   (\<exists>n h m'. use_count \<lparr>ptr = Some 7, cb = Some 0\<rparr> example_memory = Inr n \<and> n \<noteq> 0 \<and>
      lock \<lparr>ptr = Some 7, cb = Some 0\<rparr> example_memory = Inr (h, m') \<and>
      cb h = Some 0 \<and> ptr h = Some 7 \<and> use_count h m' = Inr (n + 1)) \<and>
   expired null_handle example_memory = Inr True \<and>
   lock null_handle example_memory = Inr (null_handle, example_memory) \<and>
   use_count null_handle example_memory = Inr 0"
proof -
  have a: "expired \<lparr>ptr = Some 7, cb = Some 0\<rparr> example_memory = Inr False"
    by (simp add: expired_def use_count_def example_memory_def example_block_def)
  have b: "expired null_handle example_memory = Inr True"
    by (simp add: expired_def use_count_def null_handle_def)
  show ?thesis
    using lock_null_or_one_more [OF a] lock_null_or_one_more [OF b] a b by simp
qed

subsection \<open>Copy construction\<close>

text \<open>
  C8. For every non-null Strong Handle \<open>s\<close> with strong count \<open>n\<close>, copy-constructing \<open>s2\<close>
  from \<open>s\<close> succeeds, and afterwards \<^verbatim>\<open>s.use_count()\<close> and \<^verbatim>\<open>s2.use_count()\<close> are equal, both
  \<open>n + 1\<close> (\<^verbatim>\<open>size_t\<close> addition).
\<close>

theorem copy_increments_both_counts:
  assumes "cb s \<noteq> None" and "use_count s m = Inr n"
  shows "\<exists>s2 m'. SharedPtr_copy s m = Inr (s2, m') \<and> cb s2 = cb s \<and> ptr s2 = ptr s \<and>
           use_count s m' = Inr (n + 1) \<and> use_count s2 m' = Inr (n + 1)"
  using assms
  by (auto simp: use_count_def SharedPtr_copy_def incr_shared_def split: option.splits)

theorem copy_increments_both_counts_witness:
  "\<exists>s2 m'. SharedPtr_copy \<lparr>ptr = Some 7, cb = Some 0\<rparr> example_memory = Inr (s2, m') \<and>
     cb s2 = Some 0 \<and> ptr s2 = Some 7 \<and>
     use_count \<lparr>ptr = Some 7, cb = Some 0\<rparr> m' = Inr 3 \<and> use_count s2 m' = Inr 3"
proof -
  have a: "cb \<lparr>ptr = Some 7, cb = Some 0\<rparr> \<noteq> None" by simp
  have b: "use_count \<lparr>ptr = Some 7, cb = Some 0\<rparr> example_memory = Inr 2"
    by (simp add: use_count_def example_memory_def example_block_def)
  show ?thesis
    using copy_increments_both_counts [OF a b] by simp
qed

section \<open>Sequences of operations\<close>

subsection \<open>Counters and counts\<close>

lemma unat_incr: "Suc (unat (x::size_t)) < 2 ^ 64 \<Longrightarrow> unat (x + 1) = Suc (unat x)"
  using unat_add_lem [of x 1] by simp

lemma unat_decr: "0 < unat (x::size_t) \<Longrightarrow> unat (x - 1) = unat x - 1"
  by (simp add: unat_minus_one unat_gt_0)

lemma word_zero_unat: "(x = 0) = (unat (x::size_t) = 0)"
  by (simp add: unat_eq_zero)

lemma refs_Nil: "refs [] a = 0"
  by (simp add: refs_def)

lemma refs_snoc: "refs (hs @ [x]) a = refs hs a + hit (cbo x) a"
  by (simp add: refs_def)

lemma refs_update:
  "i < length hs \<Longrightarrow> refs (hs[i := x]) a + hit (cbo (hs ! i)) a = refs hs a + hit (cbo x) a"
proof (induction hs arbitrary: i)
  case Nil
  then show ?case by simp
next
  case (Cons h hs)
  show ?case
  proof (cases i)
    case 0
    then show ?thesis by (simp add: refs_def)
  next
    case (Suc j)
    with Cons.prems have "j < length hs" by simp
    from Cons.IH [OF this] Suc show ?thesis by (simp add: refs_def)
  qed
qed

lemma refs_le_length: "refs hs a \<le> length hs"
  by (induction hs) (auto simp: refs_def hit_def)

lemma hit_le_refs: "i < length hs \<Longrightarrow> hit (cbo (hs ! i)) a \<le> refs hs a"
  using refs_update [of i hs None a] by (simp add: cbo_def hit_def)

lemma slotD: "slot hs i = Some h \<Longrightarrow> i < length hs \<and> hs ! i = Some h"
  by (auto simp: slot_def split: if_splits)

lemma destroys_simps:
  "destroys [] a = 0"
  "destroys (e # tr) a = (if is_destroy a e then 1 else 0) + destroys tr a"
  "destroys (tr @ tr') a = destroys tr a + destroys tr' a"
  by (simp_all add: destroys_def)

lemma deallocs_simps:
  "deallocs [] a = 0"
  "deallocs (e # tr) a = (if e = Deallocate a then 1 else 0) + deallocs tr a"
  "deallocs (tr @ tr') a = deallocs tr a + deallocs tr' a"
  by (simp_all add: deallocs_def)

lemmas count_simps = destroys_simps deallocs_simps

lemma extends_refl: "extends m m"
  by (simp add: extends_def)

lemma extends_trans: "extends m m' \<Longrightarrow> extends m' m'' \<Longrightarrow> extends m m''"
  unfolding extends_def by (metis append.assoc)

lemma destroy_facts:
  "shared_count (fst (destroy a b)) = shared_count b"
  "weak_count (fst (destroy a b)) = weak_count b"
  "is_destroy x (snd (destroy a b)) = (x = a)"
  "snd (destroy a b) \<noteq> Deallocate x"
  by (auto simp: destroy_def split: body.splits)

lemma acctD:
  "acct m f g \<Longrightarrow> heap m a = Some b \<Longrightarrow>
     unat (shared_count b) = f a \<and> unat (weak_count b) = g a \<and> 0 < f a + g a \<and>
     a < brk m \<and> deallocs (trace m) a = 0 \<and> destroys (trace m) a = (if f a = 0 then 1 else 0)"
  "acct m f g \<Longrightarrow> heap m a = None \<Longrightarrow>
     f a = 0 \<and> g a = 0 \<and> destroys (trace m) a = deallocs (trace m) a \<and>
     deallocs (trace m) a \<le> 1 \<and> (brk m \<le> a \<longrightarrow> deallocs (trace m) a = 0)"
  by (simp_all add: acct_def)

lemma acct_live:
  assumes "acct m f g" and "0 < f a + g a"
  shows "\<exists>b. heap m a = Some b"
proof (cases "heap m a")
  case None
  from acctD(2) [OF assms(1) None] assms(2) show ?thesis by simp
next
  case (Some b)
  then show ?thesis by simp
qed

lemma acct_cong: "acct m f g \<Longrightarrow> (\<And>a. f' a = f a) \<Longrightarrow> (\<And>a. g' a = g a) \<Longrightarrow> acct m f' g'"
proof -
  assume a: "acct m f g" and f: "\<And>a. f' a = f a" and g: "\<And>a. g' a = g a"
  from f have "f' = f" by (simp add: fun_eq_iff)
  moreover from g have "g' = g" by (simp add: fun_eq_iff)
  ultimately show ?thesis using a by simp
qed

lemma hit_None [simp]: "hit None x = 0"
  by (simp add: hit_def)

lemma hit_Some [simp]: "hit (Some a) x = (if a = x then 1 else 0)"
  by (simp add: hit_def)

lemma acctI:
  assumes "\<And>a b. heap m a = Some b \<Longrightarrow>
        unat (shared_count b) = f a \<and> unat (weak_count b) = g a \<and> 0 < f a + g a \<and>
        a < brk m \<and> deallocs (trace m) a = 0 \<and>
        destroys (trace m) a = (if f a = 0 then 1 else 0)"
    and "\<And>a. heap m a = None \<Longrightarrow>
        f a = 0 \<and> g a = 0 \<and> destroys (trace m) a = deallocs (trace m) a \<and>
        deallocs (trace m) a \<le> 1 \<and> (brk m \<le> a \<longrightarrow> deallocs (trace m) a = 0)"
  shows "acct m f g"
  unfolding acct_def using assms by blast

lemma incr_shared_acct:
  assumes A: "acct m f g" and pos: "0 < f a" and bound: "Suc (f a) < 2 ^ 64"
  shows "\<exists>m'. incr_shared a m = Inr m' \<and> acct m' (\<lambda>x. f x + hit (Some a) x) g \<and> extends m m'"
proof -
  from acct_live [OF A, of a] pos obtain b where b: "heap m a = Some b" by auto
  note Ab = acctD(1) [OF A b]
  let ?m' = "m\<lparr>heap := (heap m)(a \<mapsto> b\<lparr>shared_count := shared_count b + 1\<rparr>)\<rparr>"
  have 1: "incr_shared a m = Inr ?m'" by (simp add: incr_shared_def b)
  have u: "unat (shared_count b + 1) = Suc (f a)"
    using unat_incr [of "shared_count b"] Ab bound by simp
  have 2: "acct ?m' (\<lambda>x. f x + hit (Some a) x) g"
  proof (rule acctI)
    fix x c assume "heap ?m' x = Some c"
    then show "unat (shared_count c) = f x + hit (Some a) x \<and> unat (weak_count c) = g x \<and>
        0 < f x + hit (Some a) x + g x \<and> x < brk ?m' \<and> deallocs (trace ?m') x = 0 \<and>
        destroys (trace ?m') x = (if f x + hit (Some a) x = 0 then 1 else 0)"
      using Ab u pos acctD(1) [OF A, of x c] by (cases "x = a") (auto split: if_splits)
  next
    fix x assume "heap ?m' x = None"
    then have "x \<noteq> a" "heap m x = None" by (auto split: if_splits)
    with acctD(2) [OF A, of x]
    show "f x + hit (Some a) x = 0 \<and> g x = 0 \<and> destroys (trace ?m') x = deallocs (trace ?m') x \<and>
      deallocs (trace ?m') x \<le> 1 \<and> (brk ?m' \<le> x \<longrightarrow> deallocs (trace ?m') x = 0)" by auto
  qed
  have 3: "extends m ?m'" by (auto simp: extends_def)
  from 1 2 3 show ?thesis by blast
qed

lemma incr_weak_acct:
  assumes A: "acct m f g" and pos: "0 < f a + g a" and bound: "Suc (g a) < 2 ^ 64"
  shows "\<exists>m'. incr_weak a m = Inr m' \<and> acct m' f (\<lambda>x. g x + hit (Some a) x) \<and> extends m m'"
proof -
  from acct_live [OF A, of a] pos obtain b where b: "heap m a = Some b" by auto
  note Ab = acctD(1) [OF A b]
  let ?m' = "m\<lparr>heap := (heap m)(a \<mapsto> b\<lparr>weak_count := weak_count b + 1\<rparr>)\<rparr>"
  have 1: "incr_weak a m = Inr ?m'" by (simp add: incr_weak_def b)
  have u: "unat (weak_count b + 1) = Suc (g a)"
    using unat_incr [of "weak_count b"] Ab bound by simp
  have 2: "acct ?m' f (\<lambda>x. g x + hit (Some a) x)"
  proof (rule acctI)
    fix x c assume "heap ?m' x = Some c"
    then show "unat (shared_count c) = f x \<and> unat (weak_count c) = g x + hit (Some a) x \<and>
        0 < f x + (g x + hit (Some a) x) \<and> x < brk ?m' \<and> deallocs (trace ?m') x = 0 \<and>
        destroys (trace ?m') x = (if f x = 0 then 1 else 0)"
      using Ab u pos acctD(1) [OF A, of x c] by (cases "x = a") (auto split: if_splits)
  next
    fix x assume "heap ?m' x = None"
    then have "x \<noteq> a" "heap m x = None" by (auto split: if_splits)
    with acctD(2) [OF A, of x]
    show "f x = 0 \<and> g x + hit (Some a) x = 0 \<and> destroys (trace ?m') x = deallocs (trace ?m') x \<and>
      deallocs (trace ?m') x \<le> 1 \<and> (brk ?m' \<le> x \<longrightarrow> deallocs (trace ?m') x = 0)" by auto
  qed
  have 3: "extends m ?m'" by (auto simp: extends_def)
  from 1 2 3 show ?thesis by blast
qed

subsection \<open>Destructors, copies and constructors keep the accounting\<close>

lemma SharedPtr_dtor_acct:
  assumes A: "acct m f g" and H: "\<And>a. cb h = Some a \<Longrightarrow> 0 < f a"
  shows "\<exists>m'. SharedPtr_dtor h m = Inr m' \<and> acct m' (\<lambda>x. f x - hit (cb h) x) g \<and> extends m m'"
proof (cases "cb h")
  case None
  then have "SharedPtr_dtor h m = Inr m" by (simp add: SharedPtr_dtor_def)
  moreover have "acct m (\<lambda>x. f x - hit (cb h) x) g" using A None by simp
  ultimately show ?thesis using extends_refl by blast
next
  case (Some a)
  from H [OF Some] have pos: "0 < f a" .
  from acct_live [OF A, of a] pos obtain b where b: "heap m a = Some b" by auto
  note Ab = acctD(1) [OF A b]
  let ?b1 = "b\<lparr>shared_count := shared_count b - 1\<rparr>"
  have u: "unat (shared_count b - 1) = f a - 1"
    using unat_decr [of "shared_count b"] Ab pos by simp
  have z: "(shared_count b - 1 = 0) = (f a = 1)"
    using u pos by (auto simp: word_zero_unat)
  have w: "(weak_count b = 0) = (g a = 0)"
    using Ab by (simp add: word_zero_unat)
  show ?thesis
  proof (cases "f a = 1")
    case False
    let ?m' = "m\<lparr>heap := (heap m)(a \<mapsto> ?b1)\<rparr>"
    have 1: "SharedPtr_dtor h m = Inr ?m'"
      using False z by (simp add: SharedPtr_dtor_def Some b Let_def)
    have 2: "acct ?m' (\<lambda>x. f x - hit (cb h) x) g"
    proof (rule acctI)
      fix x c assume "heap ?m' x = Some c"
      then show "unat (shared_count c) = f x - hit (cb h) x \<and> unat (weak_count c) = g x \<and>
          0 < f x - hit (cb h) x + g x \<and> x < brk ?m' \<and> deallocs (trace ?m') x = 0 \<and>
          destroys (trace ?m') x = (if f x - hit (cb h) x = 0 then 1 else 0)"
        using Ab u pos False Some acctD(1) [OF A, of x c]
        by (cases "x = a") (auto split: if_splits)
    next
      fix x assume "heap ?m' x = None"
      then have "x \<noteq> a" "heap m x = None" by (auto split: if_splits)
      with acctD(2) [OF A, of x] Some
      show "f x - hit (cb h) x = 0 \<and> g x = 0 \<and>
        destroys (trace ?m') x = deallocs (trace ?m') x \<and>
        deallocs (trace ?m') x \<le> 1 \<and> (brk ?m' \<le> x \<longrightarrow> deallocs (trace ?m') x = 0)" by auto
    qed
    have 3: "extends m ?m'" by (auto simp: extends_def)
    from 1 2 3 show ?thesis by blast
  next
    case True
    let ?b2 = "fst (destroy a ?b1)"
    let ?ev = "snd (destroy a ?b1)"
    let ?m2 = "m\<lparr>heap := (heap m)(a \<mapsto> ?b2), trace := trace m @ [?ev]\<rparr>"
    have c2: "shared_count ?b2 = shared_count b - 1" "weak_count ?b2 = weak_count b"
      by (simp_all add: destroy_facts)
    have D: "destroys (trace m) a = 0" "deallocs (trace m) a = 0" "a < brk m"
      using Ab pos by auto
    show ?thesis
    proof (cases "g a = 0")
      case False
      have 1: "SharedPtr_dtor h m = Inr ?m2"
        using True z False w c2 by (simp add: SharedPtr_dtor_def Some b Let_def split_beta)
      have 2: "acct ?m2 (\<lambda>x. f x - hit (cb h) x) g"
      proof (rule acctI)
        fix x c assume "heap ?m2 x = Some c"
        then show "unat (shared_count c) = f x - hit (cb h) x \<and> unat (weak_count c) = g x \<and>
            0 < f x - hit (cb h) x + g x \<and> x < brk ?m2 \<and> deallocs (trace ?m2) x = 0 \<and>
            destroys (trace ?m2) x = (if f x - hit (cb h) x = 0 then 1 else 0)"
          using Ab u pos True False Some D c2 acctD(1) [OF A, of x c]
          by (cases "x = a") (auto simp: count_simps destroy_facts split: if_splits)
      next
        fix x assume "heap ?m2 x = None"
        then have "x \<noteq> a" "heap m x = None" by (auto split: if_splits)
        with acctD(2) [OF A, of x] Some
        show "f x - hit (cb h) x = 0 \<and> g x = 0 \<and>
          destroys (trace ?m2) x = deallocs (trace ?m2) x \<and>
          deallocs (trace ?m2) x \<le> 1 \<and> (brk ?m2 \<le> x \<longrightarrow> deallocs (trace ?m2) x = 0)"
          by (auto simp: count_simps destroy_facts)
      qed
      have 3: "extends m ?m2"
        by (auto simp: extends_def count_simps destroy_facts)
      from 1 2 3 show ?thesis by blast
    next
      case g0: True
      let ?m3 = "deallocate a ?m2"
      have 1: "SharedPtr_dtor h m = Inr ?m3"
        using True z g0 w c2 by (simp add: SharedPtr_dtor_def Some b Let_def split_beta)
      have 2: "acct ?m3 (\<lambda>x. f x - hit (cb h) x) g"
      proof (rule acctI)
        fix x c assume "heap ?m3 x = Some c"
        then have "x \<noteq> a" "heap m x = Some c" by (auto simp: deallocate_def split: if_splits)
        with acctD(1) [OF A, of x c] Some
        show "unat (shared_count c) = f x - hit (cb h) x \<and> unat (weak_count c) = g x \<and>
            0 < f x - hit (cb h) x + g x \<and> x < brk ?m3 \<and> deallocs (trace ?m3) x = 0 \<and>
            destroys (trace ?m3) x = (if f x - hit (cb h) x = 0 then 1 else 0)"
          by (auto simp: deallocate_def count_simps destroy_facts)
      next
        fix x assume n: "heap ?m3 x = None"
        show "f x - hit (cb h) x = 0 \<and> g x = 0 \<and>
          destroys (trace ?m3) x = deallocs (trace ?m3) x \<and>
          deallocs (trace ?m3) x \<le> 1 \<and> (brk ?m3 \<le> x \<longrightarrow> deallocs (trace ?m3) x = 0)"
        proof (cases "x = a")
          case True
          with D g0 \<open>f a = 1\<close> Some show ?thesis
            by (auto simp: deallocate_def count_simps destroy_facts)
        next
          case False
          with n have "heap m x = None" by (auto simp: deallocate_def split: if_splits)
          with acctD(2) [OF A, of x] False Some show ?thesis
            by (auto simp: deallocate_def count_simps destroy_facts)
        qed
      qed
      have 3: "extends m ?m3"
        using D by (auto simp: extends_def deallocate_def count_simps destroy_facts)
      from 1 2 3 show ?thesis by blast
    qed
  qed
qed

lemma WeakPtr_dtor_acct:
  assumes A: "acct m f g" and H: "\<And>a. cb h = Some a \<Longrightarrow> 0 < g a"
  shows "\<exists>m'. WeakPtr_dtor h m = Inr m' \<and> acct m' f (\<lambda>x. g x - hit (cb h) x) \<and> extends m m'"
proof (cases "cb h")
  case None
  then have "WeakPtr_dtor h m = Inr m" by (simp add: WeakPtr_dtor_def)
  moreover have "acct m f (\<lambda>x. g x - hit (cb h) x)" using A None by simp
  ultimately show ?thesis using extends_refl by blast
next
  case (Some a)
  from H [OF Some] have pos: "0 < g a" .
  from acct_live [OF A, of a] pos obtain b where b: "heap m a = Some b" by auto
  note Ab = acctD(1) [OF A b]
  let ?b1 = "b\<lparr>weak_count := weak_count b - 1\<rparr>"
  let ?m1 = "m\<lparr>heap := (heap m)(a \<mapsto> ?b1)\<rparr>"
  have u: "unat (weak_count b - 1) = g a - 1"
    using unat_decr [of "weak_count b"] Ab pos by simp
  have z: "(weak_count b - 1 = 0) = (g a = 1)"
    using u pos by (auto simp: word_zero_unat)
  have w: "(shared_count b = 0) = (f a = 0)"
    using Ab by (simp add: word_zero_unat)
  show ?thesis
  proof (cases "g a = 1 \<and> f a = 0")
    case False
    have 1: "WeakPtr_dtor h m = Inr ?m1"
      using False z w by (auto simp: WeakPtr_dtor_def Some b Let_def)
    have 2: "acct ?m1 f (\<lambda>x. g x - hit (cb h) x)"
    proof (rule acctI)
      fix x c assume "heap ?m1 x = Some c"
      then show "unat (shared_count c) = f x \<and> unat (weak_count c) = g x - hit (cb h) x \<and>
          0 < f x + (g x - hit (cb h) x) \<and> x < brk ?m1 \<and> deallocs (trace ?m1) x = 0 \<and>
          destroys (trace ?m1) x = (if f x = 0 then 1 else 0)"
        using Ab u pos False Some acctD(1) [OF A, of x c]
        by (cases "x = a") (auto split: if_splits)
    next
      fix x assume "heap ?m1 x = None"
      then have "x \<noteq> a" "heap m x = None" by (auto split: if_splits)
      with acctD(2) [OF A, of x] Some
      show "f x = 0 \<and> g x - hit (cb h) x = 0 \<and>
        destroys (trace ?m1) x = deallocs (trace ?m1) x \<and>
        deallocs (trace ?m1) x \<le> 1 \<and> (brk ?m1 \<le> x \<longrightarrow> deallocs (trace ?m1) x = 0)" by auto
    qed
    have 3: "extends m ?m1" by (auto simp: extends_def)
    from 1 2 3 show ?thesis by blast
  next
    case True
    let ?m3 = "deallocate a ?m1"
    have D: "destroys (trace m) a = 1" "deallocs (trace m) a = 0" "a < brk m"
      using Ab True by auto
    have 1: "WeakPtr_dtor h m = Inr ?m3"
      using True z w by (auto simp: WeakPtr_dtor_def Some b Let_def)
    have 2: "acct ?m3 f (\<lambda>x. g x - hit (cb h) x)"
    proof (rule acctI)
      fix x c assume "heap ?m3 x = Some c"
      then have "x \<noteq> a" "heap m x = Some c" by (auto simp: deallocate_def split: if_splits)
      with acctD(1) [OF A, of x c] Some
      show "unat (shared_count c) = f x \<and> unat (weak_count c) = g x - hit (cb h) x \<and>
          0 < f x + (g x - hit (cb h) x) \<and> x < brk ?m3 \<and> deallocs (trace ?m3) x = 0 \<and>
          destroys (trace ?m3) x = (if f x = 0 then 1 else 0)"
        by (auto simp: deallocate_def count_simps)
    next
      fix x assume n: "heap ?m3 x = None"
      show "f x = 0 \<and> g x - hit (cb h) x = 0 \<and>
        destroys (trace ?m3) x = deallocs (trace ?m3) x \<and>
        deallocs (trace ?m3) x \<le> 1 \<and> (brk ?m3 \<le> x \<longrightarrow> deallocs (trace ?m3) x = 0)"
      proof (cases "x = a")
        case xa: True
        with D True Some show ?thesis
          by (auto simp: deallocate_def count_simps)
      next
        case False
        with n have "heap m x = None" by (auto simp: deallocate_def split: if_splits)
        with acctD(2) [OF A, of x] False Some show ?thesis
          by (auto simp: deallocate_def count_simps)
      qed
    qed
    have 3: "extends m ?m3"
      using D by (auto simp: extends_def deallocate_def count_simps)
    from 1 2 3 show ?thesis by blast
  qed
qed

lemma SharedPtr_copy_acct:
  assumes A: "acct m f g" and H: "\<And>a. cb ot = Some a \<Longrightarrow> 0 < f a \<and> Suc (f a) < 2 ^ 64"
  shows "\<exists>h m'. SharedPtr_copy ot m = Inr (h, m') \<and> cb h = cb ot \<and>
           acct m' (\<lambda>x. f x + hit (cb ot) x) g \<and> extends m m'"
proof (cases "cb ot")
  case None
  with A show ?thesis by (auto simp: SharedPtr_copy_def extends_refl)
next
  case (Some a)
  from incr_shared_acct [OF A, of a] H [OF Some] obtain m' where
    "incr_shared a m = Inr m'" "acct m' (\<lambda>x. f x + hit (Some a) x) g" "extends m m'" by auto
  with Some show ?thesis by (auto simp: SharedPtr_copy_def)
qed

lemma WeakPtr_copy_acct:
  assumes A: "acct m f g" and H: "\<And>a. cb ot = Some a \<Longrightarrow> 0 < f a + g a \<and> Suc (g a) < 2 ^ 64"
  shows "\<exists>h m'. WeakPtr_copy ot m = Inr (h, m') \<and> cb h = cb ot \<and>
           acct m' f (\<lambda>x. g x + hit (cb ot) x) \<and> extends m m'"
proof (cases "cb ot")
  case None
  with A show ?thesis by (auto simp: WeakPtr_copy_def extends_refl)
next
  case (Some a)
  from incr_weak_acct [OF A, of a] H [OF Some] obtain m' where
    "incr_weak a m = Inr m'" "acct m' f (\<lambda>x. g x + hit (Some a) x)" "extends m m'" by auto
  with Some show ?thesis by (auto simp: WeakPtr_copy_def)
qed

lemma WeakPtr_from_shared_acct:
  assumes A: "acct m f g" and H: "\<And>a. cb ot = Some a \<Longrightarrow> 0 < f a + g a \<and> Suc (g a) < 2 ^ 64"
  shows "\<exists>h m'. WeakPtr_from_shared ot m = Inr (h, m') \<and> cb h = cb ot \<and>
           acct m' f (\<lambda>x. g x + hit (cb ot) x) \<and> extends m m'"
proof (cases "cb ot")
  case None
  with A show ?thesis by (auto simp: WeakPtr_from_shared_def extends_refl)
next
  case (Some a)
  from incr_weak_acct [OF A, of a] H [OF Some] obtain m' where
    "incr_weak a m = Inr m'" "acct m' f (\<lambda>x. g x + hit (Some a) x)" "extends m m'" by auto
  with Some show ?thesis by (auto simp: WeakPtr_from_shared_def)
qed

lemma lock_acct:
  assumes A: "acct m f g" and H: "\<And>a. cb w = Some a \<Longrightarrow> 0 < g a \<and> Suc (f a) < 2 ^ 64"
  shows "\<exists>h m'. lock w m = Inr (h, m') \<and>
           acct m' (\<lambda>x. f x + hit (cb h) x) g \<and> extends m m'"
proof (cases "cb w")
  case None
  with A show ?thesis
    by (auto simp: lock_def expired_def use_count_def null_handle_def extends_refl)
next
  case (Some a)
  from H [OF Some] have pos: "0 < g a" and bound: "Suc (f a) < 2 ^ 64" by auto
  from acct_live [OF A, of a] pos obtain b where b: "heap m a = Some b" by auto
  note Ab = acctD(1) [OF A b]
  show ?thesis
  proof (cases "f a = 0")
    case True
    with Ab have "shared_count b = 0" by (simp add: word_zero_unat)
    with A Some b show ?thesis
      by (auto simp: lock_def expired_def use_count_def null_handle_def extends_refl)
  next
    case False
    with Ab have nz: "shared_count b \<noteq> 0" by (simp add: word_zero_unat)
    from incr_shared_acct [OF A, of a] False bound obtain m' where
      "incr_shared a m = Inr m'" "acct m' (\<lambda>x. f x + hit (Some a) x) g" "extends m m'" by auto
    with Some b nz show ?thesis
      by (auto simp: lock_def expired_def use_count_def SharedPtr_from_weak_def)
  qed
qed

lemma allocate_acct:
  assumes A: "acct m f g" and al: "allocate al m = Inr (pt, m1)"
  shows "pt = brk m \<and> heap m pt = None \<and> f pt = 0 \<and> g pt = 0 \<and> acct m1 f g \<and> extends m m1 \<and>
         heap m1 = heap m \<and> brk m1 = Suc (brk m) \<and> destroys (trace m1) pt = 0 \<and>
         deallocs (trace m1) pt = 0"
proof -
  from al have pt: "pt = brk m"
    and m1: "m1 = m\<lparr>brk := Suc (brk m), trace := trace m @ [Allocate (brk m)]\<rparr>"
    by (auto simp: allocate_def split: if_splits)
  have n: "heap m (brk m) = None"
    using acctD(1) [OF A, of "brk m"] by (cases "heap m (brk m)") auto
  note N = acctD(2) [OF A n]
  have 2: "acct m1 f g"
  proof (rule acctI)
    fix x c assume "heap m1 x = Some c"
    with acctD(1) [OF A, of x c] m1
    show "unat (shared_count c) = f x \<and> unat (weak_count c) = g x \<and> 0 < f x + g x \<and>
          x < brk m1 \<and> deallocs (trace m1) x = 0 \<and>
          destroys (trace m1) x = (if f x = 0 then 1 else 0)"
      by (auto simp: count_simps)
  next
    fix x assume "heap m1 x = None"
    with acctD(2) [OF A, of x] m1
    show "f x = 0 \<and> g x = 0 \<and> destroys (trace m1) x = deallocs (trace m1) x \<and>
          deallocs (trace m1) x \<le> 1 \<and> (brk m1 \<le> x \<longrightarrow> deallocs (trace m1) x = 0)"
      by (auto simp: count_simps)
  qed
  have 3: "extends m m1" using m1 by (auto simp: extends_def count_simps)
  from pt m1 n N 2 3 show ?thesis by (auto simp: count_simps)
qed

lemma SharedPtr_from_raw_acct:
  assumes A: "acct m f g" and r: "SharedPtr_from_raw p al m = (r, m')"
  shows "extends m m' \<and>
         (case r of Inl e \<Rightarrow> thrown e \<and> acct m' f g
                  | Inr h \<Rightarrow> acct m' (\<lambda>x. f x + hit (cb h) x) g)"
proof (cases "allocate al m")
  case (Inl e)
  then have "e = BadAlloc" by (auto simp: allocate_def split: if_splits)
  with Inl r A show ?thesis
    by (auto simp: SharedPtr_from_raw_def thrown_def extends_refl)
next
  case (Inr q)
  obtain pt m1 where q: "q = (pt, m1)" by (cases q)
  note al = Inr [unfolded q]
  note F = allocate_acct [OF A al]
  let ?blk = "\<lparr>shared_count = 0, weak_count = 0, body = ControlBlockRegular p\<rparr> :: 'a BaseControlBlock"
  let ?m2 = "m1\<lparr>heap := (heap m1)(pt \<mapsto> ?blk)\<rparr>"
  let ?m3 = "?m2\<lparr>heap := (heap ?m2)(pt \<mapsto> ?blk\<lparr>shared_count := shared_count ?blk + 1\<rparr>)\<rparr>"
  have i: "incr_shared pt ?m2 = Inr ?m3" by (simp add: incr_shared_def)
  from r al i have rr: "r = Inr \<lparr>ptr = p, cb = Some pt\<rparr>" and mm: "m' = ?m3"
    by (simp_all add: SharedPtr_from_raw_def Let_def)
  have A1: "acct m1 f g" using F by simp
  have 2: "acct ?m3 (\<lambda>x. f x + hit (Some pt) x) g"
  proof (rule acctI)
    fix x c assume h: "heap ?m3 x = Some c"
    show "unat (shared_count c) = f x + hit (Some pt) x \<and> unat (weak_count c) = g x \<and>
        0 < f x + hit (Some pt) x + g x \<and> x < brk ?m3 \<and> deallocs (trace ?m3) x = 0 \<and>
        destroys (trace ?m3) x = (if f x + hit (Some pt) x = 0 then 1 else 0)"
    proof (cases "x = pt")
      case True
      with h F show ?thesis by auto
    next
      case False
      with h have "heap m1 x = Some c" by simp
      from acctD(1) [OF A1 this] False show ?thesis by auto
    qed
  next
    fix x assume "heap ?m3 x = None"
    then have "x \<noteq> pt" "heap m1 x = None" by (auto split: if_splits)
    with acctD(2) [OF A1, of x]
    show "f x + hit (Some pt) x = 0 \<and> g x = 0 \<and>
      destroys (trace ?m3) x = deallocs (trace ?m3) x \<and>
      deallocs (trace ?m3) x \<le> 1 \<and> (brk ?m3 \<le> x \<longrightarrow> deallocs (trace ?m3) x = 0)" by auto
  qed
  have "extends m1 ?m3" by (auto simp: extends_def)
  with F have 3: "extends m ?m3" by (blast intro: extends_trans)
  from 2 3 rr mm show ?thesis by simp
qed

lemma allocateShared_acct:
  assumes A: "acct m f g" and r: "allocateShared al ctor args m = (r, m')"
  shows "extends m m' \<and>
         (case r of Inl e \<Rightarrow> acct m' f g
                  | Inr h \<Rightarrow> acct m' (\<lambda>x. f x + hit (cb h) x) g)"
proof (cases "allocate al m")
  case (Inl e)
  with r A show ?thesis
    by (auto simp: allocateShared_def extends_refl)
next
  case (Inr q)
  obtain pt m1 where q: "q = (pt, m1)" by (cases q)
  note al = Inr [unfolded q]
  note F = allocate_acct [OF A al]
  have A1: "acct m1 f g" using F by simp
  show ?thesis
  proof (cases "ctor args")
    case (Inl e)
    with r al have "r = Inl e" "m' = m1" by (simp_all add: allocateShared_def)
    with F show ?thesis by simp
  next
    case (Inr v)
    let ?blk = "\<lparr>shared_count = 0, weak_count = 0, body = ControlBlockMakeShared (Some v)\<rparr>"
    let ?m2 = "m1\<lparr>heap := (heap m1)(pt \<mapsto> ?blk)\<rparr>"
    let ?m3 = "?m2\<lparr>heap := (heap ?m2)(pt \<mapsto> ?blk\<lparr>shared_count := shared_count ?blk + 1\<rparr>)\<rparr>"
    have i: "SharedPtr_from_block (Some pt) ?m2 = Inr (\<lparr>ptr = None, cb = Some pt\<rparr>, ?m3)"
      by (simp add: SharedPtr_from_block_def incr_shared_def)
    from r al i Inr have rr: "r = Inr \<lparr>ptr = None, cb = Some pt\<rparr>" and mm: "m' = ?m3"
      by (simp_all add: allocateShared_def Let_def)
    have 2: "acct ?m3 (\<lambda>x. f x + hit (Some pt) x) g"
    proof (rule acctI)
      fix x c assume h: "heap ?m3 x = Some c"
      show "unat (shared_count c) = f x + hit (Some pt) x \<and> unat (weak_count c) = g x \<and>
          0 < f x + hit (Some pt) x + g x \<and> x < brk ?m3 \<and> deallocs (trace ?m3) x = 0 \<and>
          destroys (trace ?m3) x = (if f x + hit (Some pt) x = 0 then 1 else 0)"
      proof (cases "x = pt")
        case True
        with h F show ?thesis by auto
      next
        case False
        with h have "heap m1 x = Some c" by simp
        from acctD(1) [OF A1 this] False show ?thesis by auto
      qed
    next
      fix x assume "heap ?m3 x = None"
      then have "x \<noteq> pt" "heap m1 x = None" by (auto split: if_splits)
      with acctD(2) [OF A1, of x]
      show "f x + hit (Some pt) x = 0 \<and> g x = 0 \<and>
        destroys (trace ?m3) x = deallocs (trace ?m3) x \<and>
        deallocs (trace ?m3) x \<le> 1 \<and> (brk ?m3 \<le> x \<longrightarrow> deallocs (trace ?m3) x = 0)" by auto
    qed
    have "extends m1 ?m3" by (auto simp: extends_def)
    with F have 3: "extends m ?m3" by (blast intro: extends_trans)
    from 2 3 rr mm show ?thesis by simp
  qed
qed

lemma and_then_simps [simp]: "and_then (Inl e) k = Inl e" "and_then (Inr x) k = k x"
  by (simp_all add: and_then_def)

lemma need_simps [simp]: "need None = Inl NoSuchHandle" "need (Some v) = Inr v"
  by (simp_all add: need_def)

lemma slot_refs_pos: "slot hs i = Some h \<Longrightarrow> cb h = Some a \<Longrightarrow> 0 < refs hs a"
  using hit_le_refs [of i hs a] by (auto simp: slot_def cbo_def split: if_splits)

lemma slot_update: "slot (hs[i := x]) j = (if j < length hs then if i = j then x else hs ! j else None)"
  by (auto simp: slot_def)

subsection \<open>Every statement keeps the accounting\<close>

lemma fineI: "r = Inr s' \<Longrightarrow> wf s' \<Longrightarrow> extends (mem s) (mem s') \<Longrightarrow> fine s r"
  by (simp add: fine_def)

lemma roomy_refs:
  "roomy s \<Longrightarrow> Suc (refs (strong s) a) < 2 ^ 64 \<and> Suc (refs (weak s) a) < 2 ^ 64"
  using refs_le_length [of "strong s" a] refs_le_length [of "weak s" a]
  by (simp add: roomy_def)

lemma wfI:
  assumes "acct m f g" and "mem s' = m"
    and "\<And>x. refs (strong s') x = f x" and "\<And>x. refs (weak s') x = g x"
  shows "wf s'"
  unfolding wf_def using acct_cong [OF assms(1), of "refs (strong s')" "refs (weak s')"] assms(2-4)
  by simp

lemma SDestroy_fine:
  assumes W: "wf s"
  shows "fine s (step s (SDestroy i))"
proof (cases "slot (strong s) i")
  case None
  then show ?thesis by (simp add: fine_def)
next
  case (Some h)
  note i = slotD [OF Some]
  from W have A: "acct (mem s) (refs (strong s)) (refs (weak s))" by (simp add: wf_def)
  from SharedPtr_dtor_acct [OF A, of h] slot_refs_pos [OF Some]
  obtain m' where d: "SharedPtr_dtor h (mem s) = Inr m'"
    and A': "acct m' (\<lambda>x. refs (strong s) x - hit (cb h) x) (refs (weak s))"
    and E: "extends (mem s) m'" by blast
  let ?s' = "s\<lparr>mem := m', strong := (strong s)[i := None]\<rparr>"
  have r: "step s (SDestroy i) = Inr ?s'" using Some d by simp
  have "refs ((strong s)[i := None]) x = refs (strong s) x - hit (cb h) x" for x
    using refs_update [of i "strong s" None x] i by (simp add: cbo_def)
  with A' have "wf ?s'" by (simp add: wf_def acct_cong)
  with r E show ?thesis by (simp add: fine_def)
qed

lemma WDestroy_fine:
  assumes W: "wf s"
  shows "fine s (step s (WDestroy i))"
proof (cases "slot (weak s) i")
  case None
  then show ?thesis by (simp add: fine_def)
next
  case (Some h)
  note i = slotD [OF Some]
  from W have A: "acct (mem s) (refs (strong s)) (refs (weak s))" by (simp add: wf_def)
  from WeakPtr_dtor_acct [OF A, of h] slot_refs_pos [OF Some]
  obtain m' where d: "WeakPtr_dtor h (mem s) = Inr m'"
    and A': "acct m' (refs (strong s)) (\<lambda>x. refs (weak s) x - hit (cb h) x)"
    and E: "extends (mem s) m'" by blast
  let ?s' = "s\<lparr>mem := m', weak := (weak s)[i := None]\<rparr>"
  have r: "step s (WDestroy i) = Inr ?s'" using Some d by simp
  have "refs ((weak s)[i := None]) x = refs (weak s) x - hit (cb h) x" for x
    using refs_update [of i "weak s" None x] i by (simp add: cbo_def)
  with A' have "wf ?s'" by (simp add: wf_def acct_cong)
  with r E show ?thesis by (simp add: fine_def)
qed

lemma SCopy_fine:
  assumes W: "wf s" and R: "roomy s"
  shows "fine s (step s (SCopy i))"
proof (cases "slot (strong s) i")
  case None
  then show ?thesis by (simp add: fine_def)
next
  case (Some ot)
  from W have A: "acct (mem s) (refs (strong s)) (refs (weak s))" by (simp add: wf_def)
  have "\<And>a. cb ot = Some a \<Longrightarrow> 0 < refs (strong s) a \<and> Suc (refs (strong s) a) < 2 ^ 64"
    using slot_refs_pos [OF Some] roomy_refs [OF R] by simp
  from SharedPtr_copy_acct [OF A this]
  obtain h m' where d: "SharedPtr_copy ot (mem s) = Inr (h, m')" and c: "cb h = cb ot"
    and A': "acct m' (\<lambda>x. refs (strong s) x + hit (cb ot) x) (refs (weak s))"
    and E: "extends (mem s) m'" by blast
  let ?s' = "s\<lparr>mem := m', strong := strong s @ [Some h]\<rparr>"
  have r: "step s (SCopy i) = Inr ?s'" using Some d by simp
  have "refs (strong s @ [Some h]) x = refs (strong s) x + hit (cb ot) x" for x
    using c by (simp add: refs_snoc cbo_def)
  with A' have "wf ?s'" by (simp add: wf_def acct_cong)
  with r E show ?thesis by (simp add: fine_def)
qed

lemma SMove_fine:
  assumes W: "wf s"
  shows "fine s (step s (SMove i))"
proof (cases "slot (strong s) i")
  case None
  then show ?thesis by (simp add: fine_def)
next
  case (Some ot)
  note i = slotD [OF Some]
  from W have A: "acct (mem s) (refs (strong s)) (refs (weak s))" by (simp add: wf_def)
  let ?st = "(strong s)[i := Some \<lparr>ptr = None, cb = None\<rparr>] @ [Some \<lparr>ptr = ptr ot, cb = cb ot\<rparr>]"
  let ?s' = "s\<lparr>strong := ?st\<rparr>"
  have r: "step s (SMove i) = Inr ?s'" using Some by (simp add: SharedPtr_move_def)
  have "refs ?st x = refs (strong s) x" for x
    using refs_update [of i "strong s" "Some \<lparr>ptr = None, cb = None\<rparr>" x] i
    by (simp add: refs_snoc cbo_def)
  with A have "wf ?s'" by (simp add: wf_def acct_cong)
  with r show ?thesis by (simp add: fine_def extends_refl)
qed

lemma SDefault_fine:
  assumes W: "wf s"
  shows "fine s (step s SDefault)"
proof -
  have "refs (strong s @ [Some null_handle]) x = refs (strong s) x" for x
    by (simp add: refs_snoc cbo_def null_handle_def)
  with W have "wf (s\<lparr>strong := strong s @ [Some null_handle]\<rparr>)"
    by (simp add: wf_def acct_cong)
  then show ?thesis by (simp add: fine_def extends_refl)
qed

lemma WDefault_fine:
  assumes W: "wf s"
  shows "fine s (step s WDefault)"
proof -
  have "refs (weak s @ [Some null_handle]) x = refs (weak s) x" for x
    by (simp add: refs_snoc cbo_def null_handle_def)
  with W have "wf (s\<lparr>weak := weak s @ [Some null_handle]\<rparr>)"
    by (simp add: wf_def acct_cong)
  then show ?thesis by (simp add: fine_def extends_refl)
qed

lemma SNew_fine:
  assumes W: "wf s"
  shows "fine s (step s (SNew p al))"
proof -
  from W have A: "acct (mem s) (refs (strong s)) (refs (weak s))" by (simp add: wf_def)
  obtain r m' where d: "SharedPtr_from_raw p al (mem s) = (r, m')"
    by (cases "SharedPtr_from_raw p al (mem s)")
  note F = SharedPtr_from_raw_acct [OF A d]
  show ?thesis
  proof (cases r)
    case (Inl e)
    with F d show ?thesis by (simp add: fine_def wf_def)
  next
    case (Inr h)
    have "refs (strong s @ [Some h]) x = refs (strong s) x + hit (cb h) x" for x
      by (simp add: refs_snoc cbo_def)
    moreover from F Inr
    have "acct m' (\<lambda>x. refs (strong s) x + hit (cb h) x) (refs (weak s))" by simp
    ultimately have "wf (s\<lparr>mem := m', strong := strong s @ [Some h]\<rparr>)"
      by (intro wfI) simp_all
    with F d Inr show ?thesis by (simp add: fine_def)
  qed
qed

lemma SMake_fine:
  assumes W: "wf s"
  shows "(\<exists>e. outcome = Inl e \<and> \<not> thrown e \<and> step s (SMake al outcome) = Inl e) \<or>
         fine s (step s (SMake al outcome))"
proof -
  from W have A: "acct (mem s) (refs (strong s)) (refs (weak s))" by (simp add: wf_def)
  obtain r m' where d: "allocateShared al (\<lambda>u. outcome) () (mem s) = (r, m')"
    by (cases "allocateShared al (\<lambda>u. outcome) () (mem s)")
  note F = allocateShared_acct [OF A d]
  show ?thesis
  proof (cases r)
    case (Inl e)
    show ?thesis
    proof (cases "thrown e")
      case True
      with Inl F d show ?thesis by (simp add: fine_def wf_def)
    next
      case False
      with d Inl have "outcome = Inl e"
        by (auto simp: allocateShared_def allocate_def thrown_def SharedPtr_from_block_def
            incr_shared_def Let_def split: if_splits sum.splits)
      with False d Inl show ?thesis by simp
    qed
  next
    case (Inr h)
    have "refs (strong s @ [Some h]) x = refs (strong s) x + hit (cb h) x" for x
      by (simp add: refs_snoc cbo_def)
    moreover from F Inr
    have "acct m' (\<lambda>x. refs (strong s) x + hit (cb h) x) (refs (weak s))" by simp
    ultimately have "wf (s\<lparr>mem := m', strong := strong s @ [Some h]\<rparr>)"
      by (intro wfI) simp_all
    with F d Inr show ?thesis by (simp add: fine_def)
  qed
qed

lemma WFromShared_fine:
  assumes W: "wf s" and R: "roomy s"
  shows "fine s (step s (WFromShared i))"
proof (cases "slot (strong s) i")
  case None
  then show ?thesis by (simp add: fine_def)
next
  case (Some ot)
  from W have A: "acct (mem s) (refs (strong s)) (refs (weak s))" by (simp add: wf_def)
  have "\<And>a. cb ot = Some a \<Longrightarrow>
      0 < refs (strong s) a + refs (weak s) a \<and> Suc (refs (weak s) a) < 2 ^ 64"
    using slot_refs_pos [OF Some] roomy_refs [OF R] by simp
  from WeakPtr_from_shared_acct [OF A this]
  obtain h m' where d: "WeakPtr_from_shared ot (mem s) = Inr (h, m')" and c: "cb h = cb ot"
    and A': "acct m' (refs (strong s)) (\<lambda>x. refs (weak s) x + hit (cb ot) x)"
    and E: "extends (mem s) m'" by blast
  let ?s' = "s\<lparr>mem := m', weak := weak s @ [Some h]\<rparr>"
  have r: "step s (WFromShared i) = Inr ?s'" using Some d by simp
  have "refs (weak s @ [Some h]) x = refs (weak s) x + hit (cb ot) x" for x
    using c by (simp add: refs_snoc cbo_def)
  with A' have "wf ?s'" by (simp add: wf_def acct_cong)
  with r E show ?thesis by (simp add: fine_def)
qed

lemma WCopy_fine:
  assumes W: "wf s" and R: "roomy s"
  shows "fine s (step s (WCopy i))"
proof (cases "slot (weak s) i")
  case None
  then show ?thesis by (simp add: fine_def)
next
  case (Some ot)
  from W have A: "acct (mem s) (refs (strong s)) (refs (weak s))" by (simp add: wf_def)
  have "\<And>a. cb ot = Some a \<Longrightarrow>
      0 < refs (strong s) a + refs (weak s) a \<and> Suc (refs (weak s) a) < 2 ^ 64"
    using slot_refs_pos [OF Some] roomy_refs [OF R] by simp
  from WeakPtr_copy_acct [OF A this]
  obtain h m' where d: "WeakPtr_copy ot (mem s) = Inr (h, m')" and c: "cb h = cb ot"
    and A': "acct m' (refs (strong s)) (\<lambda>x. refs (weak s) x + hit (cb ot) x)"
    and E: "extends (mem s) m'" by blast
  let ?s' = "s\<lparr>mem := m', weak := weak s @ [Some h]\<rparr>"
  have r: "step s (WCopy i) = Inr ?s'" using Some d by simp
  have "refs (weak s @ [Some h]) x = refs (weak s) x + hit (cb ot) x" for x
    using c by (simp add: refs_snoc cbo_def)
  with A' have "wf ?s'" by (simp add: wf_def acct_cong)
  with r E show ?thesis by (simp add: fine_def)
qed

lemma WMove_fine:
  assumes W: "wf s"
  shows "fine s (step s (WMove i))"
proof (cases "slot (weak s) i")
  case None
  then show ?thesis by (simp add: fine_def)
next
  case (Some ot)
  note i = slotD [OF Some]
  from W have A: "acct (mem s) (refs (strong s)) (refs (weak s))" by (simp add: wf_def)
  let ?wk = "(weak s)[i := Some \<lparr>ptr = None, cb = None\<rparr>] @ [Some \<lparr>ptr = ptr ot, cb = cb ot\<rparr>]"
  let ?s' = "s\<lparr>weak := ?wk\<rparr>"
  have r: "step s (WMove i) = Inr ?s'" using Some by (simp add: WeakPtr_move_def)
  have "refs ?wk x = refs (weak s) x" for x
    using refs_update [of i "weak s" "Some \<lparr>ptr = None, cb = None\<rparr>" x] i
    by (simp add: refs_snoc cbo_def)
  with A have "wf ?s'" by (simp add: wf_def acct_cong)
  with r show ?thesis by (simp add: fine_def extends_refl)
qed

lemma WLock_fine:
  assumes W: "wf s" and R: "roomy s"
  shows "fine s (step s (WLock i))"
proof (cases "slot (weak s) i")
  case None
  then show ?thesis by (simp add: fine_def)
next
  case (Some w)
  from W have A: "acct (mem s) (refs (strong s)) (refs (weak s))" by (simp add: wf_def)
  have "\<And>a. cb w = Some a \<Longrightarrow> 0 < refs (weak s) a \<and> Suc (refs (strong s) a) < 2 ^ 64"
    using slot_refs_pos [OF Some] roomy_refs [OF R] by simp
  from lock_acct [OF A this]
  obtain h m' where d: "lock w (mem s) = Inr (h, m')"
    and A': "acct m' (\<lambda>x. refs (strong s) x + hit (cb h) x) (refs (weak s))"
    and E: "extends (mem s) m'" by blast
  let ?s' = "s\<lparr>mem := m', strong := strong s @ [Some h]\<rparr>"
  have r: "step s (WLock i) = Inr ?s'" using Some d by simp
  have "refs (strong s @ [Some h]) x = refs (strong s) x + hit (cb h) x" for x
    by (simp add: refs_snoc cbo_def)
  with A' have "wf ?s'" by (simp add: wf_def acct_cong)
  with r E show ?thesis by (simp add: fine_def)
qed

lemma SAssign_fine:
  assumes W: "wf s" and R: "roomy s"
  shows "fine s (SharedPtr_assign this other s)"
proof (cases "slot (strong s) this")
  case None
  then show ?thesis by (simp add: fine_def SharedPtr_assign_def)
next
  case St: (Some t)
  show ?thesis
  proof (cases "slot (strong s) other")
    case None
    with St show ?thesis by (simp add: fine_def SharedPtr_assign_def)
  next
    case So: (Some ot)
    show ?thesis
    proof (cases "this = other")
      case True
      with St So W show ?thesis by (simp add: fine_def SharedPtr_assign_def extends_refl)
    next
      case False
      note i = slotD [OF St]
      from W have A: "acct (mem s) (refs (strong s)) (refs (weak s))" by (simp add: wf_def)
      have "\<And>a. cb ot = Some a \<Longrightarrow> 0 < refs (strong s) a \<and> Suc (refs (strong s) a) < 2 ^ 64"
        using slot_refs_pos [OF So] roomy_refs [OF R] by simp
      from SharedPtr_copy_acct [OF A this]
      obtain h m1 where d: "SharedPtr_copy ot (mem s) = Inr (h, m1)" and c: "cb h = cb ot"
        and A1: "acct m1 (\<lambda>x. refs (strong s) x + hit (cb ot) x) (refs (weak s))"
        and E1: "extends (mem s) m1" by blast
      let ?old = "\<lparr>ptr = ptr t, cb = cb t\<rparr>"
      have "\<And>a. cb ?old = Some a \<Longrightarrow> 0 < refs (strong s) a + hit (cb ot) a"
        using slot_refs_pos [OF St] by simp
      from SharedPtr_dtor_acct [OF A1, of ?old] this
      obtain m2 where d2: "SharedPtr_dtor ?old m1 = Inr m2"
        and A2: "acct m2 (\<lambda>x. refs (strong s) x + hit (cb ot) x - hit (cb ?old) x) (refs (weak s))"
        and E2: "extends m1 m2" by blast
      let ?st = "(strong s)[this := Some \<lparr>ptr = ptr h, cb = cb h\<rparr>]"
      let ?s' = "s\<lparr>mem := m2, strong := ?st\<rparr>"
      have r: "SharedPtr_assign this other s = Inr ?s'"
        using St So False d d2 by (simp add: SharedPtr_assign_def swap_handles_def)
      have "refs ?st x = refs (strong s) x + hit (cb ot) x - hit (cb ?old) x" for x
        using refs_update [of this "strong s" "Some \<lparr>ptr = ptr h, cb = cb h\<rparr>" x] i c
        by (simp add: cbo_def)
      with A2 have "wf ?s'" by (simp add: wf_def acct_cong)
      with r extends_trans [OF E1 E2] show ?thesis by (simp add: fine_def)
    qed
  qed
qed

lemma WAssign_fine:
  assumes W: "wf s" and R: "roomy s"
  shows "fine s (WeakPtr_assign this other s)"
proof (cases "slot (weak s) this")
  case None
  then show ?thesis by (simp add: fine_def WeakPtr_assign_def)
next
  case St: (Some t)
  show ?thesis
  proof (cases "slot (weak s) other")
    case None
    with St show ?thesis by (simp add: fine_def WeakPtr_assign_def)
  next
    case So: (Some ot)
    note i = slotD [OF St]
    from W have A: "acct (mem s) (refs (strong s)) (refs (weak s))" by (simp add: wf_def)
    have "\<And>a. cb ot = Some a \<Longrightarrow>
        0 < refs (strong s) a + refs (weak s) a \<and> Suc (refs (weak s) a) < 2 ^ 64"
      using slot_refs_pos [OF So] roomy_refs [OF R] by simp
    from WeakPtr_copy_acct [OF A this]
    obtain h m1 where d: "WeakPtr_copy ot (mem s) = Inr (h, m1)" and c: "cb h = cb ot"
      and A1: "acct m1 (refs (strong s)) (\<lambda>x. refs (weak s) x + hit (cb ot) x)"
      and E1: "extends (mem s) m1" by blast
    let ?old = "\<lparr>ptr = ptr t, cb = cb t\<rparr>"
    have "\<And>a. cb ?old = Some a \<Longrightarrow> 0 < refs (weak s) a + hit (cb ot) a"
      using slot_refs_pos [OF St] by simp
    from WeakPtr_dtor_acct [OF A1, of ?old] this
    obtain m2 where d2: "WeakPtr_dtor ?old m1 = Inr m2"
      and A2: "acct m2 (refs (strong s)) (\<lambda>x. refs (weak s) x + hit (cb ot) x - hit (cb ?old) x)"
      and E2: "extends m1 m2" by blast
    let ?wk = "(weak s)[this := Some \<lparr>ptr = ptr h, cb = cb h\<rparr>]"
    let ?s' = "s\<lparr>mem := m2, weak := ?wk\<rparr>"
    have r: "WeakPtr_assign this other s = Inr ?s'"
      using St So d d2 by (simp add: WeakPtr_assign_def swap_handles_def)
    have "refs ?wk x = refs (weak s) x + hit (cb ot) x - hit (cb ?old) x" for x
      using refs_update [of this "weak s" "Some \<lparr>ptr = ptr h, cb = cb h\<rparr>" x] i c
      by (simp add: cbo_def)
    with A2 have "wf ?s'" by (simp add: wf_def acct_cong)
    with r extends_trans [OF E1 E2] show ?thesis by (simp add: fine_def)
  qed
qed

lemma SMoveAssign_fine:
  assumes W: "wf s"
  shows "fine s (SharedPtr_move_assign this other s)"
proof (cases "slot (strong s) other")
  case None
  then show ?thesis by (simp add: fine_def SharedPtr_move_assign_def)
next
  case So: (Some ot)
  note j = slotD [OF So]
  let ?st1 = "(strong s)[other := Some \<lparr>ptr = None, cb = None\<rparr>]"
  have e1: "refs ?st1 x + hit (cb ot) x = refs (strong s) x" for x
    using refs_update [of other "strong s" "Some \<lparr>ptr = None, cb = None\<rparr>" x] j
    by (simp add: cbo_def)
  show ?thesis
  proof (cases "slot ?st1 this")
    case None
    with So show ?thesis
      by (simp add: fine_def SharedPtr_move_assign_def SharedPtr_move_def)
  next
    case St: (Some t)
    note i = slotD [OF St]
    from W have A: "acct (mem s) (refs (strong s)) (refs (weak s))" by (simp add: wf_def)
    let ?old = "\<lparr>ptr = ptr t, cb = cb t\<rparr>"
    have "\<And>a. cb ?old = Some a \<Longrightarrow> 0 < refs (strong s) a"
      using slot_refs_pos [OF St] e1 by (metis add_gr_0 handle.select_convs(2))
    from SharedPtr_dtor_acct [OF A, of ?old] this
    obtain m2 where d2: "SharedPtr_dtor ?old (mem s) = Inr m2"
      and A2: "acct m2 (\<lambda>x. refs (strong s) x - hit (cb ?old) x) (refs (weak s))"
      and E2: "extends (mem s) m2" by blast
    let ?st = "?st1[this := Some \<lparr>ptr = ptr ot, cb = cb ot\<rparr>]"
    let ?s' = "s\<lparr>mem := m2, strong := ?st\<rparr>"
    have r: "SharedPtr_move_assign this other s = Inr ?s'"
      using St So d2
      by (simp add: SharedPtr_move_assign_def SharedPtr_move_def swap_handles_def)
    have "refs ?st x = refs (strong s) x - hit (cb ?old) x" for x
      using refs_update [of this ?st1 "Some \<lparr>ptr = ptr ot, cb = cb ot\<rparr>" x] i e1 [of x]
      by (simp add: cbo_def)
    with A2 have "wf ?s'" by (simp add: wf_def acct_cong)
    with r E2 show ?thesis by (simp add: fine_def)
  qed
qed

lemma WMoveAssign_fine:
  assumes W: "wf s"
  shows "fine s (WeakPtr_move_assign this other s)"
proof (cases "slot (weak s) other")
  case None
  then show ?thesis by (simp add: fine_def WeakPtr_move_assign_def)
next
  case So: (Some ot)
  note j = slotD [OF So]
  let ?wk1 = "(weak s)[other := Some \<lparr>ptr = None, cb = None\<rparr>]"
  have e1: "refs ?wk1 x + hit (cb ot) x = refs (weak s) x" for x
    using refs_update [of other "weak s" "Some \<lparr>ptr = None, cb = None\<rparr>" x] j
    by (simp add: cbo_def)
  show ?thesis
  proof (cases "slot ?wk1 this")
    case None
    with So show ?thesis
      by (simp add: fine_def WeakPtr_move_assign_def WeakPtr_move_def)
  next
    case St: (Some t)
    note i = slotD [OF St]
    from W have A: "acct (mem s) (refs (strong s)) (refs (weak s))" by (simp add: wf_def)
    let ?old = "\<lparr>ptr = ptr t, cb = cb t\<rparr>"
    have "\<And>a. cb ?old = Some a \<Longrightarrow> 0 < refs (weak s) a"
      using slot_refs_pos [OF St] e1 by (metis add_gr_0 handle.select_convs(2))
    from WeakPtr_dtor_acct [OF A, of ?old] this
    obtain m2 where d2: "WeakPtr_dtor ?old (mem s) = Inr m2"
      and A2: "acct m2 (refs (strong s)) (\<lambda>x. refs (weak s) x - hit (cb ?old) x)"
      and E2: "extends (mem s) m2" by blast
    let ?wk = "?wk1[this := Some \<lparr>ptr = ptr ot, cb = cb ot\<rparr>]"
    let ?s' = "s\<lparr>mem := m2, weak := ?wk\<rparr>"
    have r: "WeakPtr_move_assign this other s = Inr ?s'"
      using St So d2
      by (simp add: WeakPtr_move_assign_def WeakPtr_move_def swap_handles_def)
    have "refs ?wk x = refs (weak s) x - hit (cb ?old) x" for x
      using refs_update [of this ?wk1 "Some \<lparr>ptr = ptr ot, cb = cb ot\<rparr>" x] i e1 [of x]
      by (simp add: cbo_def)
    with A2 have "wf ?s'" by (simp add: wf_def acct_cong)
    with r E2 show ?thesis by (simp add: fine_def)
  qed
qed

lemma SReset_fine:
  assumes W: "wf s"
  shows "fine s (SharedPtr_reset this s)"
proof (cases "slot (strong s) this")
  case None
  then show ?thesis by (simp add: fine_def SharedPtr_reset_def)
next
  case St: (Some t)
  note i = slotD [OF St]
  from W have A: "acct (mem s) (refs (strong s)) (refs (weak s))" by (simp add: wf_def)
  let ?old = "\<lparr>ptr = ptr t, cb = cb t\<rparr>"
  have "\<And>a. cb ?old = Some a \<Longrightarrow> 0 < refs (strong s) a"
    using slot_refs_pos [OF St] by simp
  from SharedPtr_dtor_acct [OF A, of ?old] this
  obtain m2 where d2: "SharedPtr_dtor ?old (mem s) = Inr m2"
    and A2: "acct m2 (\<lambda>x. refs (strong s) x - hit (cb ?old) x) (refs (weak s))"
    and E2: "extends (mem s) m2" by blast
  let ?st = "(strong s)[this := Some \<lparr>ptr = None, cb = None\<rparr>]"
  let ?s' = "s\<lparr>mem := m2, strong := ?st\<rparr>"
  have r: "SharedPtr_reset this s = Inr ?s'"
    using St d2 by (simp add: SharedPtr_reset_def swap_handles_def null_handle_def)
  have "refs ?st x = refs (strong s) x - hit (cb ?old) x" for x
    using refs_update [of this "strong s" "Some \<lparr>ptr = None, cb = None\<rparr>" x] i
    by (simp add: cbo_def)
  with A2 have "wf ?s'" by (simp add: wf_def acct_cong)
  with r E2 show ?thesis by (simp add: fine_def)
qed

lemma SResetPtr_fine:
  assumes W: "wf s"
  shows "fine s (SharedPtr_reset_ptr this p al s)"
proof (cases "slot (strong s) this")
  case None
  then show ?thesis by (simp add: fine_def SharedPtr_reset_ptr_def)
next
  case St: (Some t)
  note i = slotD [OF St]
  from W have A: "acct (mem s) (refs (strong s)) (refs (weak s))" by (simp add: wf_def)
  obtain r m1 where d: "SharedPtr_from_raw p al (mem s) = (r, m1)"
    by (cases "SharedPtr_from_raw p al (mem s)")
  note F = SharedPtr_from_raw_acct [OF A d]
  show ?thesis
  proof (cases r)
    case (Inl e)
    with F d St show ?thesis by (simp add: fine_def wf_def SharedPtr_reset_ptr_def)
  next
    case (Inr tmp)
    with F have A1: "acct m1 (\<lambda>x. refs (strong s) x + hit (cb tmp) x) (refs (weak s))"
      and E1: "extends (mem s) m1" by simp_all
    let ?old = "\<lparr>ptr = ptr t, cb = cb t\<rparr>"
    have "\<And>a. cb ?old = Some a \<Longrightarrow> 0 < refs (strong s) a + hit (cb tmp) a"
      using slot_refs_pos [OF St] by simp
    from SharedPtr_dtor_acct [OF A1, of ?old] this
    obtain m2 where d2: "SharedPtr_dtor ?old m1 = Inr m2"
      and A2: "acct m2 (\<lambda>x. refs (strong s) x + hit (cb tmp) x - hit (cb ?old) x) (refs (weak s))"
      and E2: "extends m1 m2" by blast
    let ?st = "(strong s)[this := Some \<lparr>ptr = ptr tmp, cb = cb tmp\<rparr>]"
    let ?s' = "s\<lparr>mem := m2, strong := ?st\<rparr>"
    have r: "SharedPtr_reset_ptr this p al s = Inr ?s'"
      using St d Inr d2 by (simp add: SharedPtr_reset_ptr_def swap_handles_def)
    have "refs ?st x = refs (strong s) x + hit (cb tmp) x - hit (cb ?old) x" for x
      using refs_update [of this "strong s" "Some \<lparr>ptr = ptr tmp, cb = cb tmp\<rparr>" x] i
      by (simp add: cbo_def)
    with A2 have "wf ?s'" by (simp add: wf_def acct_cong)
    with r extends_trans [OF E1 E2] show ?thesis by (simp add: fine_def)
  qed
qed

lemma refs_swap:
  assumes "slot hs i = Some t" and "slot hs j = Some ot" and "i \<noteq> j"
  shows "refs (hs[i := Some \<lparr>ptr = ptr ot, cb = cb ot\<rparr>, j := Some \<lparr>ptr = ptr t, cb = cb t\<rparr>]) x
         = refs hs x"
proof -
  note i = slotD [OF assms(1)] and j = slotD [OF assms(2)]
  let ?h1 = "hs[i := Some \<lparr>ptr = ptr ot, cb = cb ot\<rparr>]"
  have 1: "refs ?h1 x + hit (cb t) x = refs hs x + hit (cb ot) x"
    using refs_update [of i hs "Some \<lparr>ptr = ptr ot, cb = cb ot\<rparr>" x] i by (simp add: cbo_def)
  have "?h1 ! j = Some ot" using j assms(3) by simp
  then have 2: "refs (?h1[j := Some \<lparr>ptr = ptr t, cb = cb t\<rparr>]) x + hit (cb ot) x
      = refs ?h1 x + hit (cb t) x"
    using refs_update [of j ?h1 "Some \<lparr>ptr = ptr t, cb = cb t\<rparr>" x] j by (simp add: cbo_def)
  from 1 2 show ?thesis by arith
qed

lemma SSwap_fine:
  assumes W: "wf s"
  shows "fine s (SharedPtr_swap this other s)"
proof (cases "slot (strong s) this")
  case None
  then show ?thesis by (simp add: fine_def SharedPtr_swap_def)
next
  case St: (Some t)
  show ?thesis
  proof (cases "slot (strong s) other")
    case None
    with St show ?thesis by (simp add: fine_def SharedPtr_swap_def)
  next
    case So: (Some ot)
    show ?thesis
    proof (cases "this = other")
      case True
      with St So W show ?thesis by (simp add: fine_def SharedPtr_swap_def extends_refl)
    next
      case False
      from W refs_swap [OF St So False]
      have "wf (s\<lparr>strong := (strong s)[this := Some \<lparr>ptr = ptr ot, cb = cb ot\<rparr>,
                 other := Some \<lparr>ptr = ptr t, cb = cb t\<rparr>]\<rparr>)"
        by (simp add: wf_def acct_cong)
      with St So False show ?thesis
        by (simp add: fine_def SharedPtr_swap_def swap_handles_def extends_refl)
    qed
  qed
qed

lemma WSwap_fine:
  assumes W: "wf s"
  shows "fine s (WeakPtr_swap this other s)"
proof (cases "slot (weak s) this")
  case None
  then show ?thesis by (simp add: fine_def WeakPtr_swap_def)
next
  case St: (Some t)
  show ?thesis
  proof (cases "slot (weak s) other")
    case None
    with St show ?thesis by (simp add: fine_def WeakPtr_swap_def)
  next
    case So: (Some ot)
    show ?thesis
    proof (cases "this = other")
      case True
      with St So W show ?thesis by (simp add: fine_def WeakPtr_swap_def extends_refl)
    next
      case False
      from W refs_swap [OF St So False]
      have "wf (s\<lparr>weak := (weak s)[this := Some \<lparr>ptr = ptr ot, cb = cb ot\<rparr>,
                 other := Some \<lparr>ptr = ptr t, cb = cb t\<rparr>]\<rparr>)"
        by (simp add: wf_def acct_cong)
      with St So False show ?thesis
        by (simp add: fine_def WeakPtr_swap_def swap_handles_def extends_refl)
    qed
  qed
qed

text \<open>Every statement keeps the accounting.\<close>

lemma step_fine:
  assumes W: "wf s" and R: "roomy s"
  shows "(\<exists>al e. op = SMake al (Inl e) \<and> \<not> thrown e \<and> step s op = Inl e) \<or> fine s (step s op)"
proof (cases op)
  case SDefault
  with SDefault_fine [OF W] show ?thesis by simp
next
  case (SNew p al)
  with SNew_fine [OF W, of p al] show ?thesis by simp
next
  case (SMake al outcome)
  with SMake_fine [OF W, of outcome al] show ?thesis by auto
next
  case (SCopy i)
  with SCopy_fine [OF W R, of i] show ?thesis by simp
next
  case (SMove i)
  with SMove_fine [OF W, of i] show ?thesis by simp
next
  case (SAssign i j)
  with SAssign_fine [OF W R, of i j] show ?thesis by simp
next
  case (SMoveAssign i j)
  with SMoveAssign_fine [OF W, of i j] show ?thesis by simp
next
  case (SReset i)
  with SReset_fine [OF W, of i] show ?thesis by simp
next
  case (SResetPtr i p al)
  with SResetPtr_fine [OF W, of i p al] show ?thesis by simp
next
  case (SSwap i j)
  with SSwap_fine [OF W, of i j] show ?thesis by simp
next
  case (SDestroy i)
  with SDestroy_fine [OF W, of i] show ?thesis by simp
next
  case WDefault
  with WDefault_fine [OF W] show ?thesis by simp
next
  case (WFromShared i)
  with WFromShared_fine [OF W R, of i] show ?thesis by simp
next
  case (WCopy i)
  with WCopy_fine [OF W R, of i] show ?thesis by simp
next
  case (WMove i)
  with WMove_fine [OF W, of i] show ?thesis by simp
next
  case (WAssign i j)
  with WAssign_fine [OF W R, of i j] show ?thesis by simp
next
  case (WMoveAssign i j)
  with WMoveAssign_fine [OF W, of i j] show ?thesis by simp
next
  case (WSwap i j)
  with WSwap_fine [OF W, of i j] show ?thesis by simp
next
  case (WLock i)
  with WLock_fine [OF W R, of i] show ?thesis by simp
next
  case (WDestroy i)
  with WDestroy_fine [OF W, of i] show ?thesis by simp
qed

text \<open>
  From a well-formed state no statement has undefined behaviour: the only errors are a
  statement that names no live handle object and an error of the value's own constructor
  other than an exception.
\<close>

lemma step_defined:
  assumes "wf s" and "roomy s" and "step s op = Inl e"
  shows "e = NoSuchHandle \<or> (\<exists>al. op = SMake al (Inl e))"
  using step_fine [OF assms(1,2), of op] assms(3) by (auto simp: fine_def)

subsection \<open>Runs\<close>

lemma and_then_Inr: "and_then r k = Inr y \<Longrightarrow> \<exists>x. r = Inr x \<and> k x = Inr y"
  by (cases r) simp_all

lemma step_lengths:
  assumes "step s op = Inr s'"
  shows "length (strong s) \<le> length (strong s') \<and> length (weak s) \<le> length (weak s')"
proof (cases op)
  case SDefault with assms show ?thesis by auto
next
  case (SNew p al) with assms show ?thesis
    by (auto split: prod.splits sum.splits if_splits)
next
  case (SMake al outcome) with assms show ?thesis
    by (auto split: prod.splits sum.splits if_splits)
next
  case (SCopy i) with assms show ?thesis
    by (auto dest!: and_then_Inr)
next
  case (SMove i) with assms show ?thesis
    by (auto dest!: and_then_Inr simp: SharedPtr_move_def)
next
  case (SAssign i j) with assms show ?thesis
    by (auto dest!: and_then_Inr simp: SharedPtr_assign_def swap_handles_def Let_def split: if_splits)
next
  case (SMoveAssign i j) with assms show ?thesis
    by (auto dest!: and_then_Inr simp: SharedPtr_move_assign_def SharedPtr_move_def swap_handles_def Let_def)
next
  case (SReset i) with assms show ?thesis
    by (auto dest!: and_then_Inr simp: SharedPtr_reset_def swap_handles_def Let_def)
next
  case (SResetPtr i p al) with assms show ?thesis
    by (auto dest!: and_then_Inr simp: SharedPtr_reset_ptr_def swap_handles_def Let_def
        split: prod.splits sum.splits if_splits)
next
  case (SSwap i j) with assms show ?thesis
    by (auto dest!: and_then_Inr simp: SharedPtr_swap_def swap_handles_def Let_def split: if_splits)
next
  case (SDestroy i) with assms show ?thesis
    by (auto dest!: and_then_Inr)
next
  case WDefault with assms show ?thesis by auto
next
  case (WFromShared i) with assms show ?thesis
    by (auto dest!: and_then_Inr)
next
  case (WCopy i) with assms show ?thesis
    by (auto dest!: and_then_Inr)
next
  case (WMove i) with assms show ?thesis
    by (auto dest!: and_then_Inr simp: WeakPtr_move_def)
next
  case (WAssign i j) with assms show ?thesis
    by (auto dest!: and_then_Inr simp: WeakPtr_assign_def swap_handles_def Let_def)
next
  case (WMoveAssign i j) with assms show ?thesis
    by (auto dest!: and_then_Inr simp: WeakPtr_move_assign_def WeakPtr_move_def swap_handles_def Let_def)
next
  case (WSwap i j) with assms show ?thesis
    by (auto dest!: and_then_Inr simp: WeakPtr_swap_def swap_handles_def Let_def split: if_splits)
next
  case (WLock i) with assms show ?thesis
    by (auto dest!: and_then_Inr)
next
  case (WDestroy i) with assms show ?thesis
    by (auto dest!: and_then_Inr)
qed

lemma run_lengths:
  "run s ops = Inr s' \<Longrightarrow>
     length (strong s) \<le> length (strong s') \<and> length (weak s) \<le> length (weak s')"
proof (induction ops arbitrary: s)
  case Nil
  then show ?case by simp
next
  case (Cons x xs)
  from Cons.prems obtain s1 where 1: "step s x = Inr s1" and 2: "run s1 xs = Inr s'"
    by (auto dest!: and_then_Inr)
  from step_lengths [OF 1] Cons.IH [OF 2] show ?case by simp
qed

lemma roomy_mono:
  "roomy s' \<Longrightarrow> length (strong s) \<le> length (strong s') \<and> length (weak s) \<le> length (weak s')
     \<Longrightarrow> roomy s"
  by (simp add: roomy_def)

lemma step_wf:
  assumes "wf s" and "step s op = Inr s'" and "roomy s'"
  shows "wf s' \<and> extends (mem s) (mem s')"
proof -
  from assms(3) step_lengths [OF assms(2)] have "roomy s" by (rule roomy_mono)
  from step_fine [OF assms(1) this, of op] assms(2) show ?thesis by (auto simp: fine_def)
qed

lemma run_wf:
  "wf s \<Longrightarrow> run s ops = Inr s' \<Longrightarrow> roomy s' \<Longrightarrow> wf s' \<and> extends (mem s) (mem s')"
proof (induction ops arbitrary: s)
  case Nil
  then show ?case by (simp add: extends_refl)
next
  case (Cons x xs)
  from Cons.prems(2) obtain s1 where 1: "step s x = Inr s1" and 2: "run s1 xs = Inr s'"
    by (auto dest!: and_then_Inr)
  from Cons.prems(3) run_lengths [OF 2] have "roomy s1" by (rule roomy_mono)
  from step_wf [OF Cons.prems(1) 1 this] have w1: "wf s1" and e1: "extends (mem s) (mem s1)"
    by simp_all
  from Cons.IH [OF w1 2 Cons.prems(3)] e1 show ?case by (blast intro: extends_trans)
qed

lemma wf_init: "wf init_state"
  by (simp add: wf_def acct_def init_state_def init_memory_def refs_def count_simps)

lemma acct_counts:
  assumes A: "acct m f g" and T: "heap m a \<noteq> None \<or> deallocs (trace m) a = 1"
  shows "destroys (trace m) a = (if f a = 0 then 1 else 0) \<and>
         deallocs (trace m) a = (if f a = 0 \<and> g a = 0 then 1 else 0) \<and>
         (case heap m a of
            None \<Rightarrow> f a = 0 \<and> g a = 0
          | Some b \<Rightarrow> unat (shared_count b) = f a \<and> unat (weak_count b) = g a \<and> 0 < f a + g a)"
proof (cases "heap m a")
  case None
  with T acctD(2) [OF A None] show ?thesis by simp
next
  case (Some b)
  with acctD(1) [OF A Some] show ?thesis by auto
qed

lemma extends_counts:
  assumes "extends m m'"
  shows "destroys (trace m) a \<le> destroys (trace m') a \<and> deallocs (trace m) a \<le> deallocs (trace m') a"
  using assms by (auto simp: extends_def count_simps)

lemma extendsD: "extends m m' \<Longrightarrow> heap m a \<noteq> None \<or> deallocs (trace m) a = 1 \<Longrightarrow>
    heap m' a \<noteq> None \<or> deallocs (trace m') a = 1"
  unfolding extends_def by blast

text \<open>The whole picture for one block along a run.\<close>

lemma block_history:
  assumes pre: "run init_state pre = Inr s0"
    and live: "heap (mem s0) a \<noteq> None"
    and ops: "run s0 ops = Inr s"
    and op: "step s op = Inr s'"
    and room: "roomy s'"
  shows "wf s \<and> wf s' \<and> extends (mem s) (mem s') \<and>
         (heap (mem s) a \<noteq> None \<or> deallocs (trace (mem s)) a = 1) \<and>
         (heap (mem s') a \<noteq> None \<or> deallocs (trace (mem s')) a = 1)"
proof -
  from room step_lengths [OF op] have rs: "roomy s" by (rule roomy_mono)
  from rs run_lengths [OF ops] have r0: "roomy s0" by (rule roomy_mono)
  from run_wf [OF wf_init pre r0] have w0: "wf s0" by simp
  from run_wf [OF w0 ops rs] have w: "wf s" and e: "extends (mem s0) (mem s)" by simp_all
  from step_wf [OF w op room] have w': "wf s'" and e': "extends (mem s) (mem s')" by simp_all
  from extendsD [OF e] live have t: "heap (mem s) a \<noteq> None \<or> deallocs (trace (mem s)) a = 1"
    by simp
  from extendsD [OF e' t] w w' e' t show ?thesis by simp
qed

lemmas exec_defs =
  init_state_def init_memory_def SharedPtr_from_raw_def allocate_def incr_shared_def incr_weak_def
  SharedPtr_copy_def WeakPtr_from_shared_def WeakPtr_copy_def SharedPtr_reset_def
  SharedPtr_dtor_def WeakPtr_dtor_def swap_handles_def null_handle_def destroy_def deallocate_def
  slot_def thrown_def Let_def strong_refs_def weak_refs_def refs_def cbo_def hit_def
  destroys_def deallocs_def

subsection \<open>The value is destroyed exactly once\<close>



subsection \<open>The block's storage, when values own no handles\<close>

text \<open>
  In programs whose values own no handles, under the same assumptions as for
  \<^verbatim>\<open>destroy()\<close>: \<^verbatim>\<open>deallocate()\<close> has run on block \<open>a\<close> once if neither
  a Strong nor a Weak Handle refers to \<open>a\<close> any more and not at all otherwise; the last
  statement runs it exactly when it leaves no handle of either kind on \<open>a\<close>, whichever
  kind ran out first; and as long as the block is in the heap its strong and weak
  counters are the numbers of Strong and Weak handles that refer to it, not both zero.
\<close>

lemma flat_runs_release_storage_once:
  assumes "run init_state pre = Inr s0"
    and "heap (mem s0) a \<noteq> None"
    and "run s0 ops = Inr s"
    and "step s op = Inr s'"
    and "Suc (length (strong s')) < 2 ^ 64" and "Suc (length (weak s')) < 2 ^ 64"
  shows "deallocs (trace (mem s')) a =
           (if strong_refs s' a = 0 \<and> weak_refs s' a = 0 then 1 else 0) \<and>
         deallocs (trace (mem s')) a =
           deallocs (trace (mem s)) a +
           (if 0 < strong_refs s a + weak_refs s a \<and> strong_refs s' a = 0 \<and> weak_refs s' a = 0
            then 1 else 0) \<and>
         (case heap (mem s') a of
            None \<Rightarrow> strong_refs s' a = 0 \<and> weak_refs s' a = 0
          | Some b \<Rightarrow> unat (shared_count b) = strong_refs s' a \<and>
                      unat (weak_count b) = weak_refs s' a \<and>
                      0 < strong_refs s' a + weak_refs s' a)"
proof -
  from assms(5,6) have "roomy s'" by (simp add: roomy_def)
  from block_history [OF assms(1-4) this]
  have w: "wf s" and w': "wf s'" and e: "extends (mem s) (mem s')"
    and t: "heap (mem s) a \<noteq> None \<or> deallocs (trace (mem s)) a = 1"
    and t': "heap (mem s') a \<noteq> None \<or> deallocs (trace (mem s')) a = 1" by simp_all
  from acct_counts [OF w [unfolded wf_def] t]
  have 1: "deallocs (trace (mem s)) a = (if strong_refs s a = 0 \<and> weak_refs s a = 0 then 1 else 0)"
    by (simp add: strong_refs_def weak_refs_def)
  note c' = acct_counts [OF w' [unfolded wf_def] t']
  from c'
  have 2: "deallocs (trace (mem s')) a = (if strong_refs s' a = 0 \<and> weak_refs s' a = 0 then 1 else 0)"
    by (simp add: strong_refs_def weak_refs_def)
  from c'
  have 3: "case heap (mem s') a of
            None \<Rightarrow> strong_refs s' a = 0 \<and> weak_refs s' a = 0
          | Some b \<Rightarrow> unat (shared_count b) = strong_refs s' a \<and>
                      unat (weak_count b) = weak_refs s' a \<and>
                      0 < strong_refs s' a + weak_refs s' a"
    unfolding strong_refs_def weak_refs_def by blast
  from extends_counts [OF e, of a] 1 2 3 show ?thesis by (auto split: if_splits)
qed

lemma flat_runs_release_storage_once_example:
  "\<exists>s0 s s'. run (init_state :: int state) [SNew (Some 7) (Allocator True)] = Inr s0 \<and>
     heap (mem s0) 0 \<noteq> None \<and>
     run s0 [SCopy 0, WFromShared 1, SReset 0, SDestroy 1] = Inr s \<and>
     step s (WDestroy 0) = Inr s' \<and>
     Suc (length (strong s')) < 2 ^ 64 \<and> Suc (length (weak s')) < 2 ^ 64 \<and>
     strong_refs s 0 = 0 \<and> weak_refs s 0 = 1 \<and> strong_refs s' 0 = 0 \<and> weak_refs s' 0 = 0 \<and>
     deallocs (trace (mem s)) 0 = 0 \<and> deallocs (trace (mem s')) 0 = 1 \<and> heap (mem s') 0 = None"
proof -
  have "\<exists>s0 s s'. run (init_state :: int state) [SNew (Some 7) (Allocator True)] = Inr s0 \<and>
     heap (mem s0) 0 \<noteq> None \<and>
     run s0 [SCopy 0, WFromShared 1, SReset 0, SDestroy 1] = Inr s \<and>
     step s (WDestroy 0) = Inr s' \<and>
     Suc (length (strong s')) < 2 ^ 64 \<and> Suc (length (weak s')) < 2 ^ 64 \<and>
     strong_refs s 0 = 0 \<and> weak_refs s 0 = 1 \<and> strong_refs s' 0 = 0 \<and> weak_refs s' 0 = 0 \<and>
     heap (mem s') 0 = None"
    by (simp add: exec_defs)
  then obtain s0 s s' where h: "run (init_state :: int state) [SNew (Some 7) (Allocator True)] = Inr s0"
     "heap (mem s0) 0 \<noteq> None"
     "run s0 [SCopy 0, WFromShared 1, SReset 0, SDestroy 1] = Inr s"
     "step s (WDestroy 0) = Inr s'"
     "Suc (length (strong s')) < 2 ^ 64" "Suc (length (weak s')) < 2 ^ 64"
     and r: "strong_refs s 0 = 0" "weak_refs s 0 = 1" "strong_refs s' 0 = 0" "weak_refs s' 0 = 0"
       "heap (mem s') 0 = None" by blast
  from flat_runs_release_storage_once [OF h] r have "deallocs (trace (mem s)) 0 = 0 \<and> deallocs (trace (mem s')) 0 = 1"
    by simp
  with h r show ?thesis by blast
qed

subsection \<open>The block's storage, when the value owns a Weak handle on its own block\<close>

text \<open>
  With no members, \<open>SharedPtr_dtor_owning\<close> is \<open>SharedPtr_dtor\<close>.
\<close>

lemma SharedPtr_dtor_owning_no_members:
  "SharedPtr_dtor_owning h [] m =
     (case SharedPtr_dtor h m of Inl e \<Rightarrow> (Inl e, m) | Inr m' \<Rightarrow> (Inr (), m'))"
  by (simp add: SharedPtr_dtor_owning_def SharedPtr_dtor_def destroy_owning_def destroy_def
      deallocate_def Let_def split: option.splits body.splits)

text \<open>
  C2, where the code breaks it. The factory and the constructor of \<^verbatim>\<open>WeakPtr\<close> from a
  \<^verbatim>\<open>SharedPtr\<close> produce \<open>self_observer_memory\<close>: one Strong handle and one Weak handle on
  block 0, the Weak one a member of the value. Destroying the Strong handle takes the
  strong count to 0 and calls \<^verbatim>\<open>destroy()\<close>; the value's destructor destroys the member,
  whose \<^verbatim>\<open>~WeakPtr\<close> finds both counts 0 and deallocates the block inside \<^verbatim>\<open>destroy()\<close>;
  back in \<^verbatim>\<open>~SharedPtr\<close>, the read of \<^verbatim>\<open>cb->weak_count\<close> is a read of released storage.
  So \<^verbatim>\<open>deallocate()\<close> runs in the middle of the operation and the operation has undefined
  behaviour after it; an execution in which that read returns the 0 the block last held
  goes on to call \<^verbatim>\<open>deallocate()\<close> a second time.
\<close>

theorem last_strong_release_reads_released_block:
  "fst (allocateShared (Allocator True) (\<lambda>x. Inr x) (5::int) init_memory) = Inr node_handle \<and>
   WeakPtr_from_shared node_handle
     (snd (allocateShared (Allocator True) (\<lambda>x. Inr x) (5::int) init_memory))
     = Inr (node_handle, self_observer_memory) \<and>
   SharedPtr_dtor_owning node_handle [node_handle] self_observer_memory =
     (Inl UseAfterFree,
      \<lparr>heap = Map.empty, brk = 1, objs = Map.empty,
       trace = [Allocate 0, DestroyInPlace 0, Deallocate 0]\<rparr>)"
  by (simp add: allocateShared_def allocate_def SharedPtr_from_block_def incr_shared_def
      WeakPtr_from_shared_def incr_weak_def init_memory_def node_handle_def
      self_observer_memory_def SharedPtr_dtor_owning_def destroy_owning_def destroy_def
      WeakPtr_dtor_def deallocate_def and_then_def Let_def)

section \<open>Null handles and self-assignment\<close>

lemma handle_eta: "\<lparr>ptr = ptr h, cb = cb h\<rparr> = h"
  by simp

subsection \<open>Null handles\<close>

text \<open>
  C9, as the code has it. Copying, move-constructing from and destroying a null Strong or
  Weak Handle reads and writes no control block: the memory is unchanged, the destructor
  is a no-op, and the handle produced by copying or moving, like the moved-from handle, is
  null with \<^verbatim>\<open>use_count()\<close> 0. Assigning from a null handle, by copy or by move, accesses
  no block through the null handle either, but it releases what the target held: its
  whole effect is that of the destructor on the target's previous handle (a no-op when
  the target is null too), after which the target is null.
\<close>

theorem null_handle_operations_touch_no_block:
  assumes "slot (strong s) j = Some null_handle" and "slot (strong s) i = Some t"
    and "slot (weak s) j' = Some null_handle" and "slot (weak s) i' = Some t'"
  shows "SharedPtr_copy null_handle m = Inr (null_handle, m) \<and>
         SharedPtr_move null_handle = (null_handle, null_handle) \<and>
         SharedPtr_dtor null_handle m = Inr m \<and>
         WeakPtr_from_shared null_handle m = Inr (null_handle, m) \<and>
         WeakPtr_copy null_handle m = Inr (null_handle, m) \<and>
         WeakPtr_move null_handle = (null_handle, null_handle) \<and>
         WeakPtr_dtor null_handle m = Inr m \<and>
         use_count null_handle m = Inr 0 \<and>
         SharedPtr_assign i j s =
           and_then (SharedPtr_dtor t (mem s))
             (\<lambda>m'. Inr (s\<lparr>mem := m', strong := (strong s)[i := Some null_handle]\<rparr>)) \<and>
         SharedPtr_move_assign i j s =
           and_then (SharedPtr_dtor t (mem s))
             (\<lambda>m'. Inr (s\<lparr>mem := m', strong := (strong s)[i := Some null_handle]\<rparr>)) \<and>
         WeakPtr_assign i' j' s =
           and_then (WeakPtr_dtor t' (mem s))
             (\<lambda>m'. Inr (s\<lparr>mem := m', weak := (weak s)[i' := Some null_handle]\<rparr>)) \<and>
         WeakPtr_move_assign i' j' s =
           and_then (WeakPtr_dtor t' (mem s))
             (\<lambda>m'. Inr (s\<lparr>mem := m', weak := (weak s)[i' := Some null_handle]\<rparr>))"
proof -
  note j = slotD [OF assms(1)] and i = slotD [OF assms(2)]
    and j' = slotD [OF assms(3)] and i' = slotD [OF assms(4)]
  have sj: "(strong s)[j := Some \<lparr>ptr = None, cb = None\<rparr>] = strong s"
    using j by (metis list_update_id null_handle_def)
  have wj: "(weak s)[j' := Some \<lparr>ptr = None, cb = None\<rparr>] = weak s"
    using j' by (metis list_update_id null_handle_def)
  have 1: "SharedPtr_assign i j s =
           and_then (SharedPtr_dtor t (mem s))
             (\<lambda>m'. Inr (s\<lparr>mem := m', strong := (strong s)[i := Some null_handle]\<rparr>))"
  proof (cases "i = j")
    case True
    with assms(1,2) have "t = null_handle" by simp
    with True assms(1) sj show ?thesis
      by (simp add: SharedPtr_assign_def SharedPtr_dtor_def null_handle_def)
  next
    case False
    with assms(1,2) show ?thesis
      by (simp add: SharedPtr_assign_def SharedPtr_copy_def swap_handles_def handle_eta null_handle_def)
  qed
  have 2: "SharedPtr_move_assign i j s =
           and_then (SharedPtr_dtor t (mem s))
             (\<lambda>m'. Inr (s\<lparr>mem := m', strong := (strong s)[i := Some null_handle]\<rparr>))"
    using assms(1,2) sj
    by (simp add: SharedPtr_move_assign_def SharedPtr_move_def swap_handles_def handle_eta null_handle_def)
  have 3: "WeakPtr_assign i' j' s =
           and_then (WeakPtr_dtor t' (mem s))
             (\<lambda>m'. Inr (s\<lparr>mem := m', weak := (weak s)[i' := Some null_handle]\<rparr>))"
    using assms(3,4)
    by (simp add: WeakPtr_assign_def WeakPtr_copy_def swap_handles_def handle_eta null_handle_def)
  have 4: "WeakPtr_move_assign i' j' s =
           and_then (WeakPtr_dtor t' (mem s))
             (\<lambda>m'. Inr (s\<lparr>mem := m', weak := (weak s)[i' := Some null_handle]\<rparr>))"
    using assms(3,4) wj
    by (simp add: WeakPtr_move_assign_def WeakPtr_move_def swap_handles_def handle_eta null_handle_def)
  have 0: "SharedPtr_copy null_handle m = Inr (null_handle, m) \<and>
         SharedPtr_move null_handle = (null_handle, null_handle) \<and>
         SharedPtr_dtor null_handle m = Inr m \<and>
         WeakPtr_from_shared null_handle m = Inr (null_handle, m) \<and>
         WeakPtr_copy null_handle m = Inr (null_handle, m) \<and>
         WeakPtr_move null_handle = (null_handle, null_handle) \<and>
         WeakPtr_dtor null_handle m = Inr m \<and>
         use_count null_handle m = Inr 0"
    by (simp add: null_handle_def SharedPtr_copy_def SharedPtr_move_def SharedPtr_dtor_def
        WeakPtr_from_shared_def WeakPtr_copy_def WeakPtr_move_def WeakPtr_dtor_def use_count_def)
  from 0 1 2 3 4 show ?thesis by simp
qed

theorem null_handle_operations_touch_no_block_witness:
  "SharedPtr_copy null_handle example_memory = Inr (null_handle, example_memory) \<and>
   SharedPtr_dtor null_handle example_memory = Inr example_memory \<and>
   WeakPtr_dtor null_handle example_memory = Inr example_memory \<and>
   use_count null_handle example_memory = Inr 0 \<and>
   SharedPtr_assign 2 2 example_state = Inr example_state \<and>
   SharedPtr_assign 0 2 example_state =
     Inr (example_state
       \<lparr>mem := example_memory\<lparr>heap := [0 \<mapsto> example_block\<lparr>shared_count := 1\<rparr>]\<rparr>,
        strong := [Some null_handle, Some \<lparr>ptr = Some 7, cb = Some 0\<rparr>, Some null_handle]\<rparr>) \<and>
   WeakPtr_assign 1 1 example_state = Inr example_state"
proof -
  have a: "slot (strong example_state) 2 = Some null_handle"
    and b: "slot (strong example_state) 0 = Some \<lparr>ptr = Some 7, cb = Some 0\<rparr>"
    and c: "slot (weak example_state) 1 = Some null_handle"
    by (simp_all add: example_state_def slot_def)
  from null_handle_operations_touch_no_block [OF a b c c, of example_memory] null_handle_operations_touch_no_block [OF a a c c, of example_memory]
  show ?thesis
    by (simp add: example_state_def example_memory_def example_block_def SharedPtr_dtor_def
        WeakPtr_dtor_def null_handle_def Let_def)
qed

text \<open>
  C9, as the claim states it, fails for assignment: in \<open>sole_owner_state\<close> slot 1 is a
  null handle and slot 0 is the only owner of block 0, whose strong count is 1. The copy
  assignment of slot 1 to slot 0 writes that block's counter, calls its deleter and
  deallocates it.
\<close>

theorem assign_from_null_releases_target_counterexample:
  "slot (strong sole_owner_state) 1 = Some null_handle \<and>
   use_count \<lparr>ptr = Some 7, cb = Some 0\<rparr> (mem sole_owner_state) = Inr 1 \<and>
   SharedPtr_assign 0 1 sole_owner_state =
     Inr \<lparr>mem = \<lparr>heap = Map.empty, brk = 1, objs = [7 \<mapsto> 5],
                 trace = [Allocate 0, DeleterCall 0 (Some 7), Deallocate 0]\<rparr>,
          strong = [Some null_handle, Some null_handle], weak = []\<rparr>"
  by (simp add: sole_owner_state_def slot_def use_count_def SharedPtr_assign_def SharedPtr_copy_def
      swap_handles_def handle_eta SharedPtr_dtor_def destroy_def deallocate_def null_handle_def Let_def)

subsection \<open>Self-assignment\<close>

text \<open>
  C10. For every Strong Handle and every Weak Handle that counts in its block (the block
  of a non-null Weak Handle is allocated and its weak count is not 0), copy
  self-assignment and move self-assignment return the program state as it was: the
  handle's fields, hence its null-ness and the value and block it refers to, and the
  block's two counters, are those from before the assignment, and the trace shows no new
  event.
\<close>

theorem self_assignment_changes_nothing:
  assumes "slot (strong s) i = Some h"
    and "slot (weak s) j = Some w"
    and "case cb w of None \<Rightarrow> True
         | Some a \<Rightarrow> (case heap (mem s) a of None \<Rightarrow> False | Some b \<Rightarrow> weak_count b \<noteq> 0)"
  shows "SharedPtr_assign i i s = Inr s \<and> SharedPtr_move_assign i i s = Inr s \<and>
         WeakPtr_assign j j s = Inr s \<and> WeakPtr_move_assign j j s = Inr s"
proof -
  note i = slotD [OF assms(1)] and j = slotD [OF assms(2)]
  have 1: "SharedPtr_assign i i s = Inr s"
    using assms(1) by (simp add: SharedPtr_assign_def)
  have si: "(strong s)[i := Some h] = strong s" using i by (metis list_update_id)
  have wj: "(weak s)[j := Some w] = weak s" using j by (metis list_update_id)
  have 2: "SharedPtr_move_assign i i s = Inr s"
    using assms(1) i si
    by (simp add: SharedPtr_move_assign_def SharedPtr_move_def swap_handles_def handle_eta slot_def
        SharedPtr_dtor_def)
  have 4: "WeakPtr_move_assign j j s = Inr s"
    using assms(2) j wj
    by (simp add: WeakPtr_move_assign_def WeakPtr_move_def swap_handles_def handle_eta slot_def
        WeakPtr_dtor_def)
  have 3: "WeakPtr_assign j j s = Inr s"
  proof (cases "cb w")
    case None
    have cp: "WeakPtr_copy w (mem s) = Inr (w, mem s)"
      using None by (simp add: WeakPtr_copy_def)
    have dt: "WeakPtr_dtor w (mem s) = Inr (mem s)"
      using None by (simp add: WeakPtr_dtor_def)
    from assms(2) cp dt wj show ?thesis
      by (simp add: WeakPtr_assign_def swap_handles_def handle_eta)
  next
    case (Some a)
    with assms(3) obtain b where b: "heap (mem s) a = Some b" and nz: "weak_count b \<noteq> 0"
      by (auto split: option.splits)
    let ?m1 = "(mem s)\<lparr>heap := (heap (mem s))(a \<mapsto> b\<lparr>weak_count := weak_count b + 1\<rparr>)\<rparr>"
    have cp: "WeakPtr_copy w (mem s) = Inr (w, ?m1)"
      using Some b by (simp add: WeakPtr_copy_def incr_weak_def)
    have hh: "(heap (mem s))(a \<mapsto> b) = heap (mem s)" using b by (rule map_upd_triv)
    have dt: "WeakPtr_dtor w ?m1 = Inr (mem s)"
      using Some nz hh by (simp add: WeakPtr_dtor_def Let_def)
    from assms(2) cp dt wj show ?thesis
      by (simp add: WeakPtr_assign_def swap_handles_def handle_eta)
  qed
  from 1 2 3 4 show ?thesis by simp
qed

theorem self_assignment_changes_nothing_witness:
  "SharedPtr_assign 0 0 example_state = Inr example_state \<and>
   SharedPtr_move_assign 0 0 example_state = Inr example_state \<and>
   WeakPtr_assign 0 0 example_state = Inr example_state \<and>
   WeakPtr_move_assign 0 0 example_state = Inr example_state"
proof -
  have a: "slot (strong example_state) 0 = Some \<lparr>ptr = Some 7, cb = Some 0\<rparr>"
    by (simp add: example_state_def slot_def)
  have b: "slot (weak example_state) 0 = Some \<lparr>ptr = Some 7, cb = Some 0\<rparr>"
    by (simp add: example_state_def slot_def)
  have c: "case cb \<lparr>ptr = Some 7, cb = Some 0\<rparr> of None \<Rightarrow> True
         | Some a \<Rightarrow> (case heap (mem example_state) a of None \<Rightarrow> False
                      | Some b \<Rightarrow> weak_count b \<noteq> 0)"
    by (simp add: example_state_def example_memory_def example_block_def)
  from self_assignment_changes_nothing [OF a b c] show ?thesis .
qed

end
